theory Spec2Isabelle
  imports Complex_Main
begin

section \<open>Piecewise-exponential parameter curves (parameter\_curve.py)\<close>

text \<open>
  The development follows \<^verbatim>\<open>src/source/parameter_curve.py\<close>. Python numbers
  (ints and floats alike) are idealised as the reals: every arithmetic operation is exact,
  \<^verbatim>\<open>math.exp\<close> is \<^term>\<open>exp\<close> and \<^verbatim>\<open>math.log\<close> is \<^term>\<open>ln\<close>. Rounding, overflow and
  NaN are outside the model. Exceptions are values of \<open>py_error\<close>; a function that can
  raise returns \<open>py_error + 'a\<close> with \<open>Inl\<close> the exception.
\<close>

datatype py_error = AssertionError | IndexError | ZeroDivisionError | ValueError | TypeError

subsection \<open>ParameterCurveSegment\<close>

text \<open>
  The cached coefficients \<^verbatim>\<open>_A\<close> and \<^verbatim>\<open>_B\<close> are recomputed by every setter and by
  every method that writes a level or the shape directly, and lazily when they are
  \<^verbatim>\<open>None\<close>; they are therefore always the function \<open>calculate_coefficients\<close> of the
  three fields they depend on, and the record carries the five fields only.
\<close>

record segment =
  start_time :: real
  end_time :: real
  start_level :: real
  end_level :: real
  curve_shape :: real

definition ParameterCurveSegment :: "real \<Rightarrow> real \<Rightarrow> real \<Rightarrow> real \<Rightarrow> real \<Rightarrow> segment" where
  "ParameterCurveSegment st et sl el cs =
     \<lparr>start_time = st, end_time = et, start_level = sl, end_level = el, curve_shape = cs\<rparr>"

definition duration :: "segment \<Rightarrow> real" where
  "duration seg = end_time seg - start_time seg"

text \<open>\<^verbatim>\<open>__contains__\<close>: \<^verbatim>\<open>start_time <= t < end_time\<close>.\<close>

definition contains :: "segment \<Rightarrow> real \<Rightarrow> bool" where
  "contains seg t \<longleftrightarrow> start_time seg \<le> t \<and> t < end_time seg"

text \<open>\<^verbatim>\<open>ParameterCurveSegment.max_level\<close>.\<close>

definition seg_max_level :: "segment \<Rightarrow> real" where
  "seg_max_level seg = max (start_level seg) (end_level seg)"

text \<open>
  \<^verbatim>\<open>ParameterCurveSegment.value_at(t, clip_at_boundary)\<close>. The division that computes
  \<^verbatim>\<open>norm_t\<close> raises when the segment has no duration; \<^verbatim>\<open>exp(S) - 1\<close> is never zero
  on the exponential branch, since there \<open>\<bar>S\<bar> \<ge> 0.000001\<close>.
\<close>

definition seg_value_at :: "segment \<Rightarrow> real \<Rightarrow> bool \<Rightarrow> py_error + real" where
  "seg_value_at seg t clip_at_boundary =
     (if clip_at_boundary \<and> t \<ge> end_time seg then Inr (end_level seg)
      else if clip_at_boundary \<and> t \<le> start_time seg then Inr (start_level seg)
      else if end_time seg - start_time seg = 0 then Inl ZeroDivisionError
      else
        (let norm_t = (t - start_time seg) / (end_time seg - start_time seg) in
         if \<bar>curve_shape seg\<bar> < 0.000001
         then Inr (start_level seg + norm_t * (end_level seg - start_level seg))
         else Inr (start_level seg + (end_level seg - start_level seg)
                     / (exp (curve_shape seg) - 1) * (exp (curve_shape seg * norm_t) - 1))))"

subsection \<open>ParameterCurve\<close>

text \<open>A curve is its list \<^verbatim>\<open>_segments\<close>.\<close>

type_synonym curve = "segment list"

definition curve_length :: "curve \<Rightarrow> real" where
  "curve_length c = (if length c = 0 then 0 else end_time (last c))"

definition curve_start_level :: "curve \<Rightarrow> py_error + real" where
  "curve_start_level c = (case c of [] \<Rightarrow> Inl IndexError | seg # _ \<Rightarrow> Inr (start_level seg))"

definition curve_end_level :: "curve \<Rightarrow> py_error + real" where
  "curve_end_level c = (if c = [] then Inl IndexError else Inr (end_level (last c)))"

text \<open>
  \<^verbatim>\<open>ParameterCurve.value_at\<close>: the segments are scanned from the end and the first one
  that contains \<open>t\<close> answers.
\<close>

definition curve_value_at :: "curve \<Rightarrow> real \<Rightarrow> py_error + real" where
  "curve_value_at c t =
     (if t < 0 then curve_start_level c
      else (case find (\<lambda>seg. contains seg t) (rev c) of
              Some seg \<Rightarrow> seg_value_at seg t True
            | None \<Rightarrow> curve_end_level c))"

subsection \<open>Integration of a segment\<close>

text \<open>
  \<^verbatim>\<open>_calculate_coefficients\<close>: \<open>None\<close> is the flag for linear interpolation, otherwise the
  pair \<open>(A, B)\<close>.
\<close>

definition calculate_coefficients :: "segment \<Rightarrow> (real \<times> real) option" where
  "calculate_coefficients seg =
     (if \<bar>curve_shape seg\<bar> < 0.000001 then None
      else Some (start_level seg - (end_level seg - start_level seg) / (exp (curve_shape seg) - 1),
                 (end_level seg - start_level seg)
                   / (curve_shape seg * (exp (curve_shape seg) - 1))))"

definition segment_antiderivative :: "real \<times> real \<Rightarrow> real \<Rightarrow> real \<Rightarrow> real" where
  "segment_antiderivative AB S normalized_t = fst AB * normalized_t + snd AB * exp (S * normalized_t)"

text \<open>
  \<^verbatim>\<open>integrate_segment(t1, t2)\<close>. The assertion comes first, then the early return for equal
  bounds, then the two normalising divisions.
\<close>

definition integrate_segment :: "segment \<Rightarrow> real \<Rightarrow> real \<Rightarrow> py_error + real" where
  "integrate_segment seg t1 t2 =
     (if \<not> (start_time seg \<le> t1 \<and> t1 \<le> end_time seg \<and> start_time seg \<le> t2 \<and> t2 \<le> end_time seg)
      then Inl AssertionError
      else if t1 = t2 then Inr 0
      else if end_time seg - start_time seg = 0 then Inl ZeroDivisionError
      else
        (let norm_t1 = (t1 - start_time seg) / (end_time seg - start_time seg);
             norm_t2 = (t2 - start_time seg) / (end_time seg - start_time seg)
         in case calculate_coefficients seg of
              None \<Rightarrow>
                (let start_level' = (1 - norm_t1) * start_level seg + norm_t1 * end_level seg;
                     end_level' = (1 - norm_t2) * start_level seg + norm_t2 * end_level seg
                 in Inr ((t2 - t1) * (start_level' + end_level') / 2))
            | Some AB \<Rightarrow>
                (let segment_length = end_time seg - start_time seg
                 in Inr (segment_length *
                      (segment_antiderivative AB (curve_shape seg) norm_t2
                       - segment_antiderivative AB (curve_shape seg) norm_t1)))))"

subsection \<open>Splitting a segment\<close>

text \<open>
  \<^verbatim>\<open>split_at(t)\<close> returns the segment itself, altered to be the first part, and a new
  segment for the second part.
\<close>

definition split_at :: "segment \<Rightarrow> real \<Rightarrow> py_error + (segment \<times> segment)" where
  "split_at seg t =
     (if \<not> (start_time seg < t \<and> t < end_time seg) then Inl AssertionError
      else case seg_value_at seg t True of
             Inl e \<Rightarrow> Inl e
           | Inr middle_level \<Rightarrow>
               (let curve_shape_1 = (t - start_time seg) / (end_time seg - start_time seg) * curve_shape seg;
                    curve_shape_2 = curve_shape seg - curve_shape_1;
                    new_segment = ParameterCurveSegment t (end_time seg) middle_level (end_level seg) curve_shape_2
                in Inr (seg\<lparr>end_time := t, end_level := middle_level, curve_shape := curve_shape_1\<rparr>,
                        new_segment)))"

subsection \<open>Mutation of a curve\<close>

text \<open>
  Every mutator takes the segment list and returns the new one; an exception leaves the
  error in its place.
\<close>

text \<open>Writing to the fields of \<^verbatim>\<open>self._segments[-1]\<close> replaces the last segment.\<close>

definition set_last :: "curve \<Rightarrow> segment \<Rightarrow> curve" where
  "set_last c seg = butlast c @ [seg]"

text \<open>\<^verbatim>\<open>append_segment(level, duration, curve_shape, tolerance)\<close>.\<close>

definition append_segment :: "curve \<Rightarrow> real \<Rightarrow> real \<Rightarrow> real \<Rightarrow> real \<Rightarrow> py_error + curve" where
  "append_segment c level dur shape tolerance =
     (if c = [] then Inl IndexError
      else
        (let lst = last c;
             new_end = curve_length c + dur;
             appended = c @ [ParameterCurveSegment (curve_length c) new_end (end_level lst) level shape]
         in if duration lst = 0 then
              (if dur = 0 then Inr (set_last c (lst\<lparr>end_level := level\<rparr>))
               else if end_level lst \<noteq> start_level lst then Inr appended
               else Inr (set_last c (lst\<lparr>end_level := level, end_time := new_end, curve_shape := shape\<rparr>)))
            else if curve_shape lst = 0 \<and> shape = 0 then
              (case seg_value_at lst new_end False of
                 Inl e \<Rightarrow> Inl e
               | Inr v \<Rightarrow>
                   if \<bar>v - level\<bar> \<le> tolerance
                   then Inr (set_last c (lst\<lparr>end_time := new_end, end_level := level\<rparr>))
                   else Inr appended)
            else Inr appended))"

text \<open>
  \<^verbatim>\<open>pop_segment()\<close>: the result is the value returned (\<open>None\<close> when the single remaining
  segment was collapsed) and the new segment list.
\<close>

definition pop_segment :: "curve \<Rightarrow> py_error + (segment option \<times> curve)" where
  "pop_segment c =
     (if length c = 1 then
        (let s0 = c ! 0 in
         if end_time s0 \<noteq> start_time s0 \<or> end_level s0 \<noteq> start_level s0
         then Inr (None, [s0\<lparr>end_time := start_time s0, end_level := start_level s0\<rparr>])
         else Inl IndexError)
      else if c = [] then Inl IndexError
      else Inr (Some (last c), butlast c))"

text \<open>
  \<^verbatim>\<open>insert_interpolated(t)\<close>. The loop enumerates the list while inserting into it: after
  an insertion at \<open>i + 1\<close> the enumeration goes on with the inserted second part.
\<close>

lemma split_at_start_time:
  "split_at seg t = Inr (part1, part2) \<Longrightarrow> start_time part2 = t"
  by (auto simp: split_at_def Let_def ParameterCurveSegment_def split: if_splits sum.splits)

function insert_interpolated_loop :: "curve \<Rightarrow> real \<Rightarrow> nat \<Rightarrow> py_error + curve" where
  "insert_interpolated_loop c t i =
     (if i \<ge> length c then Inr c
      else if t = start_time (c ! i) then Inr c
      else if contains (c ! i) t then
        (case split_at (c ! i) t of
           Inl e \<Rightarrow> Inl e
         | Inr parts \<Rightarrow>
             insert_interpolated_loop (take (i + 1) (c[i := fst parts]) @ snd parts # drop (i + 1) c) t (i + 1))
      else insert_interpolated_loop c t (i + 1))"
  by pat_completeness auto
termination
proof (relation "measure (\<lambda>(c, t, i). 2 * (length c - i)
          + (if i < length c \<and> start_time (c ! i) = t then 0 else 1))", goal_cases)
  case 1
  then show ?case by simp
next
  case (2 c t i parts)
  have "start_time (snd parts) = t"
    using 2(4) split_at_start_time[of "c ! i" t "fst parts" "snd parts"] by simp
  then show ?case using 2(1,2) by (simp add: nth_append)
next
  case (3 c t i)
  then show ?case by auto
qed

declare insert_interpolated_loop.simps [simp del]

definition insert_interpolated :: "curve \<Rightarrow> real \<Rightarrow> py_error + curve" where
  "insert_interpolated c t =
     (if \<not> t \<ge> 0 then Inl AssertionError
      else if \<not> t \<le> curve_length c then Inl AssertionError
      else if t = curve_length c then Inr c
      else insert_interpolated_loop c t 0)"

text \<open>
  \<^verbatim>\<open>ParameterCurve.insert(t, level, curve_shape_in, curve_shape_out)\<close>; the loop ends at
  the insertion.
\<close>

fun insert_loop :: "segment list \<Rightarrow> real \<Rightarrow> real \<Rightarrow> real \<Rightarrow> real \<Rightarrow> segment list" where
  "insert_loop [] t level curve_shape_in curve_shape_out = []"
| "insert_loop (seg # rest) t level curve_shape_in curve_shape_out =
     (if start_time seg < t \<and> t < end_time seg then
        seg\<lparr>end_time := t, curve_shape := curve_shape_in, end_level := level\<rparr>
          # ParameterCurveSegment t (end_time seg) level (end_level seg) curve_shape_out # rest
      else
        (let seg1 = (if t = start_time seg
                     then seg\<lparr>start_level := level, curve_shape := curve_shape_out\<rparr> else seg);
             seg2 = (if t = end_time seg1
                     then seg1\<lparr>end_level := level, curve_shape := curve_shape_in\<rparr> else seg1)
         in seg2 # insert_loop rest t level curve_shape_in curve_shape_out))"

definition curve_insert :: "curve \<Rightarrow> real \<Rightarrow> real \<Rightarrow> real \<Rightarrow> real \<Rightarrow> py_error + curve" where
  "curve_insert c t level curve_shape_in curve_shape_out =
     (if \<not> t \<ge> 0 then Inl AssertionError
      else if t > curve_length c then append_segment c level (t - curve_length c) curve_shape_in 0
      else Inr (insert_loop c t level curve_shape_in curve_shape_out))"


text \<open>
  \<^verbatim>\<open>remove_segments_after(t)\<close> pops in two loops: until \<^verbatim>\<open>pop_segment\<close> raises (for
  negative \<open>t\<close>), and while the curve is longer than \<open>t\<close>.
\<close>

text \<open>
  Not part of the program: what every successful \<^verbatim>\<open>pop_segment\<close> makes smaller, for the
  termination of the two loops.
\<close>

definition pop_measure :: "curve \<Rightarrow> nat" where
  "pop_measure c =
     2 * length c
     + (if length c = 1 \<and> (end_time (c ! 0) \<noteq> start_time (c ! 0) \<or> end_level (c ! 0) \<noteq> start_level (c ! 0))
        then 1 else 0)"

lemma pop_segment_measure:
  "pop_segment c = Inr (r, c') \<Longrightarrow> pop_measure c' < pop_measure c"
  by (cases c rule: rev_cases)
     (auto simp: pop_segment_def pop_measure_def Let_def split: if_splits)

function pop_until_error :: "curve \<Rightarrow> curve" where
  "pop_until_error c =
     (case pop_segment c of Inl e \<Rightarrow> c | Inr res \<Rightarrow> pop_until_error (snd res))"
  by pat_completeness auto
termination
proof (relation "measure pop_measure", goal_cases)
  case 1
  then show ?case by simp
next
  case (2 c res)
  then show ?case using pop_segment_measure[of c "fst res" "snd res"] by simp
qed

declare pop_until_error.simps [simp del]

function pop_while_longer :: "curve \<Rightarrow> real \<Rightarrow> py_error + curve" where
  "pop_while_longer c t =
     (if curve_length c > t then
        (case pop_segment c of Inl e \<Rightarrow> Inl e | Inr res \<Rightarrow> pop_while_longer (snd res) t)
      else Inr c)"
  by pat_completeness auto
termination
proof (relation "measure (\<lambda>(c, t). pop_measure c)", goal_cases)
  case 1
  then show ?case by simp
next
  case (2 c t res)
  then show ?case using pop_segment_measure[of c "fst res" "snd res"] by simp
qed

declare pop_while_longer.simps [simp del]

text \<open>
  The \<^verbatim>\<open>for i in range(len(self._segments))\<close> loop returns at the first segment that
  starts at \<open>t\<close> or strictly contains it; the list is not changed before that.
\<close>

fun remove_loop :: "curve \<Rightarrow> segment list \<Rightarrow> real \<Rightarrow> py_error + curve" where
  "remove_loop c [] t = Inr c"
| "remove_loop c (this_segment # rest) t =
     (if t = start_time this_segment then pop_while_longer c t
      else if start_time this_segment < t \<and> t < end_time this_segment then
        (case insert_interpolated c t of
           Inl e \<Rightarrow> Inl e
         | Inr c' \<Rightarrow> pop_while_longer c' t)
      else remove_loop c rest t)"

definition remove_segments_after :: "curve \<Rightarrow> real \<Rightarrow> py_error + curve" where
  "remove_segments_after c t =
     (let c1 = (if t < 0 then pop_until_error c else c) in remove_loop c1 c1 t)"

subsection \<open>Maximum level\<close>

text \<open>Python's \<^verbatim>\<open>max\<close> of a sequence; it raises on an empty one.\<close>

definition py_max :: "real list \<Rightarrow> py_error + real" where
  "py_max xs = (case xs of [] \<Rightarrow> Inl ValueError | x # rest \<Rightarrow> Inr (fold max rest x))"

definition points_in_range :: "real \<Rightarrow> real \<Rightarrow> segment \<Rightarrow> real list" where
  "points_in_range t1 t2 seg =
     (if t1 \<le> start_time seg \<and> start_time seg \<le> t2 then [start_level seg] else [])
     @ (if t1 \<le> end_time seg \<and> end_time seg \<le> t2 then [end_level seg] else [])"

text \<open>\<^verbatim>\<open>ParameterCurve.max_level(t_range)\<close>, with \<open>None\<close> for the whole curve.\<close>

definition curve_max_level :: "curve \<Rightarrow> (real \<times> real) option \<Rightarrow> py_error + real" where
  "curve_max_level c t_range =
     (case t_range of
        None \<Rightarrow> py_max (map seg_max_level c)
      | Some (t1, t2) \<Rightarrow>
          if \<not> t1 < t2 then Inl AssertionError
          else
            (case curve_value_at c t1 of
               Inl e \<Rightarrow> Inl e
             | Inr v1 \<Rightarrow>
                 (case curve_value_at c t2 of
                    Inl e \<Rightarrow> Inl e
                  | Inr v2 \<Rightarrow> py_max ([v1, v2] @ concat (map (points_in_range t1 t2) c)))))"

subsection \<open>Integration of a curve\<close>

text \<open>The bisection that narrows the index at which the scan starts.\<close>

function bisect_start_index :: "curve \<Rightarrow> real \<Rightarrow> nat \<Rightarrow> py_error + nat" where
  "bisect_start_index c t1 start_index =
     (let new_start_index = start_index + (length c - start_index) div 2 in
      if new_start_index \<ge> length c then Inl IndexError
      else if end_time (c ! new_start_index) < t1 \<and> length c - new_start_index > 3
        then bisect_start_index c t1 new_start_index
      else Inr start_index)"
  by pat_completeness auto
termination
proof (relation "measure (\<lambda>(c, t1, start_index). length c - start_index)", goal_cases)
  case 1
  then show ?case by simp
next
  case (2 c t1 start_index new_start_index)
  then have a: "start_index < new_start_index" by (cases "(length c - start_index) div 2") auto
  have b: "new_start_index < length c" using 2 by simp
  have "length c - new_start_index < length c - start_index" using a b by linarith
  then show ?case by simp
qed

declare bisect_start_index.simps [simp del]

text \<open>The scan that adds up the segment integrals; a \<^verbatim>\<open>break\<close> returns the sum.\<close>

fun integrate_loop :: "segment list \<Rightarrow> real \<Rightarrow> real \<Rightarrow> real \<Rightarrow> py_error + real" where
  "integrate_loop [] t1 t2 integral = Inr integral"
| "integrate_loop (seg # rest) t1 t2 integral =
     (if t1 < start_time seg then
        (if t2 > start_time seg then
           (if t2 \<le> end_time seg then
              (case integrate_segment seg (start_time seg) t2 of
                 Inl e \<Rightarrow> Inl e | Inr v \<Rightarrow> Inr (integral + v))
            else
              (case integrate_segment seg (start_time seg) (end_time seg) of
                 Inl e \<Rightarrow> Inl e | Inr v \<Rightarrow> integrate_loop rest t1 t2 (integral + v)))
         else integrate_loop rest t1 t2 integral)
      else if contains seg t1 then
        (if contains seg t2 then
           (case integrate_segment seg t1 t2 of
              Inl e \<Rightarrow> Inl e | Inr v \<Rightarrow> Inr (integral + v))
         else
           (case integrate_segment seg t1 (end_time seg) of
              Inl e \<Rightarrow> Inl e | Inr v \<Rightarrow> integrate_loop rest t1 t2 (integral + v)))
      else integrate_loop rest t1 t2 integral)"

text \<open>
  \<^verbatim>\<open>integrate_interval(t1, t2)\<close> calls itself with the bounds swapped, with 0 for a
  negative lower bound and with the length for an upper bound beyond it. \<open>edge_weight\<close>
  is not part of the program: it weighs a bound for the termination proof.
\<close>

definition edge_weight :: "curve \<Rightarrow> real \<Rightarrow> nat" where
  "edge_weight c x = (if x = 0 then 0 else if x = curve_length c then 1 else 2)"

function integrate_interval :: "curve \<Rightarrow> real \<Rightarrow> real \<Rightarrow> py_error + real" where
  "integrate_interval c t1 t2 =
     (if t1 = t2 then Inr 0
      else if t2 < t1 then
        (case integrate_interval c t2 t1 of Inl e \<Rightarrow> Inl e | Inr v \<Rightarrow> Inr (- v))
      else if t1 < 0 then
        (case curve_start_level c of
           Inl e \<Rightarrow> Inl e
         | Inr sl \<Rightarrow>
             (case integrate_interval c 0 t2 of
                Inl e \<Rightarrow> Inl e | Inr v \<Rightarrow> Inr (- t1 * sl + v)))
      else if t2 > curve_length c then
        (case curve_end_level c of
           Inl e \<Rightarrow> Inl e
         | Inr el \<Rightarrow>
             (case integrate_interval c t1 (curve_length c) of
                Inl e \<Rightarrow> Inl e | Inr v \<Rightarrow> Inr ((t2 - curve_length c) * el + v)))
      else
        (case bisect_start_index c t1 0 of
           Inl e \<Rightarrow> Inl e
         | Inr start_index \<Rightarrow> integrate_loop (drop start_index c) t1 t2 0))"
  by pat_completeness auto
termination
  by (relation "measure (\<lambda>(c, t1, t2). 2 * (edge_weight c t1 + edge_weight c t2)
                           + (if t2 < t1 then 1 else 0))")
     (auto simp: edge_weight_def)

declare integrate_interval.simps [simp del]

text \<open>
  The integral as the specification words it for the comparison: the same edge cases, and
  the per-segment integrals summed over the full segment list, no index skipped.
\<close>

function integrate_interval_full_scan :: "curve \<Rightarrow> real \<Rightarrow> real \<Rightarrow> py_error + real" where
  "integrate_interval_full_scan c t1 t2 =
     (if t1 = t2 then Inr 0
      else if t2 < t1 then
        (case integrate_interval_full_scan c t2 t1 of Inl e \<Rightarrow> Inl e | Inr v \<Rightarrow> Inr (- v))
      else if t1 < 0 then
        (case curve_start_level c of
           Inl e \<Rightarrow> Inl e
         | Inr sl \<Rightarrow>
             (case integrate_interval_full_scan c 0 t2 of
                Inl e \<Rightarrow> Inl e | Inr v \<Rightarrow> Inr (- t1 * sl + v)))
      else if t2 > curve_length c then
        (case curve_end_level c of
           Inl e \<Rightarrow> Inl e
         | Inr el \<Rightarrow>
             (case integrate_interval_full_scan c t1 (curve_length c) of
                Inl e \<Rightarrow> Inl e | Inr v \<Rightarrow> Inr ((t2 - curve_length c) * el + v)))
      else integrate_loop c t1 t2 0)"
  by pat_completeness auto
termination
  by (relation "measure (\<lambda>(c, t1, t2). 2 * (edge_weight c t1 + edge_weight c t2)
                           + (if t2 < t1 then 1 else 0))")
     (auto simp: edge_weight_def)

declare integrate_interval_full_scan.simps [simp del]

text \<open>
  \<^verbatim>\<open>get_upper_integration_bound(t1, desired_area, max_error)\<close> recurses with no bound on
  the depth; a call that never returns has the value \<open>None\<close>.
\<close>

partial_function (option) get_upper_integration_bound ::
    "curve \<Rightarrow> real \<Rightarrow> real \<Rightarrow> real \<Rightarrow> (py_error + real) option" where
  "get_upper_integration_bound c t1 desired_area max_error =
     (if desired_area < max_error then Some (Inr t1)
      else case curve_value_at c t1 of
             Inl e \<Rightarrow> Some (Inl e)
           | Inr t1_level \<Rightarrow>
               if t1_level = 0 then Some (Inl ZeroDivisionError)
               else
                 (let t2_guess = desired_area / t1_level + t1 in
                  case integrate_interval c t1 t2_guess of
                    Inl e \<Rightarrow> Some (Inl e)
                  | Inr area \<Rightarrow>
                      if area \<le> desired_area then
                        (if desired_area - area < max_error then Some (Inr t2_guess)
                         else get_upper_integration_bound c t2_guess (desired_area - area) max_error)
                      else
                        (case curve_max_level c (Some (t1, t2_guess)) of
                           Inl e \<Rightarrow> Some (Inl e)
                         | Inr m \<Rightarrow>
                             if m = 0 then Some (Inl ZeroDivisionError)
                             else
                               (let conservative_guess = t1_level / m * (t2_guess - t1) + t1 in
                                case integrate_interval c t1 conservative_guess of
                                  Inl e \<Rightarrow> Some (Inl e)
                                | Inr a \<Rightarrow>
                                    get_upper_integration_bound c conservative_guess
                                      (desired_area - a) max_error))))"


subsection \<open>The structural invariant of a curve\<close>

text \<open>
  The invariant as the specification lists it: the list is non-empty, the segments are
  sorted by \<open>start_time\<close>, each segment ends where the next one starts, and the first
  segment starts at 0. A segment is valid when it does not end before it starts (a
  zero-length segment is a jump).
\<close>


fun contiguous :: "segment list \<Rightarrow> bool" where
  "contiguous [] = True"
| "contiguous [s] = True"
| "contiguous (s # s' # ss) = (end_time s = start_time s' \<and> contiguous (s' # ss))"

definition segments_valid :: "curve \<Rightarrow> bool" where
  "segments_valid c \<longleftrightarrow> list_all (\<lambda>seg. start_time seg \<le> end_time seg) c"

definition curve_invariant :: "curve \<Rightarrow> bool" where
  "curve_invariant c \<longleftrightarrow>
     c \<noteq> [] \<and> sorted (map start_time c) \<and> contiguous c \<and> start_time (hd c) = 0"


text \<open>Both together.\<close>

definition well_formed :: "curve \<Rightarrow> bool" where
  "well_formed c \<longleftrightarrow> curve_invariant c \<and> segments_valid c"


subsection \<open>Auxiliary functions of the proofs\<close>

text \<open>
  Not part of the program: \<open>shape_fraction S u\<close> is the share of the level change that an
  exponential segment of shape \<open>S\<close> has made at the normalised time \<open>u\<close>, and
  \<open>progress seg t\<close> is that share for the clipped evaluation of \<open>seg\<close> at the time \<open>t\<close>.
\<close>

definition shape_fraction :: "real \<Rightarrow> real \<Rightarrow> real" where
  "shape_fraction S u = (exp (S * u) - 1) / (exp S - 1)"

definition progress :: "segment \<Rightarrow> real \<Rightarrow> real" where
  "progress seg t =
     (if t \<ge> end_time seg then 1
      else if t \<le> start_time seg then 0
      else if \<bar>curve_shape seg\<bar> < 0.000001
        then (t - start_time seg) / (end_time seg - start_time seg)
      else shape_fraction (curve_shape seg) ((t - start_time seg) / (end_time seg - start_time seg)))"


text \<open>
  Also not part of the program: a primitive of the interpolation of a segment, the time
  clamped to the segment, the area of a segment between two clamped times, and a primitive
  of the curve with its flat continuation on both sides.
\<close>

definition clamp :: "segment \<Rightarrow> real \<Rightarrow> real" where
  "clamp seg t = max (start_time seg) (min (end_time seg) t)"

definition seg_primitive :: "segment \<Rightarrow> real \<Rightarrow> real" where
  "seg_primitive seg t =
     (case calculate_coefficients seg of
        None \<Rightarrow> start_level seg * (t - start_time seg)
                 + (end_level seg - start_level seg) * (t - start_time seg)\<^sup>2
                   / (2 * (end_time seg - start_time seg))
      | Some AB \<Rightarrow> (end_time seg - start_time seg)
                 * segment_antiderivative AB (curve_shape seg)
                     ((t - start_time seg) / (end_time seg - start_time seg)))"

definition seg_area :: "segment \<Rightarrow> real \<Rightarrow> real \<Rightarrow> real" where
  "seg_area seg a b = seg_primitive seg (clamp seg b) - seg_primitive seg (clamp seg a)"

definition curve_primitive :: "curve \<Rightarrow> real \<Rightarrow> real" where
  "curve_primitive c t =
     (if t < 0 then t * start_level (hd c) else 0)
     + (if t > curve_length c then (t - curve_length c) * end_level (last c) else 0)
     + (\<Sum>seg\<leftarrow>c. seg_area seg (start_time seg) t)"


subsection \<open>An example curve\<close>

text \<open>Eight linear segments of length 1, the level equal to the time.\<close>

definition staircase :: curve where
  "staircase = [ParameterCurveSegment 0 1 0 1 0, ParameterCurveSegment 1 2 1 2 0,
     ParameterCurveSegment 2 3 2 3 0, ParameterCurveSegment 3 4 3 4 0,
     ParameterCurveSegment 4 5 4 5 0, ParameterCurveSegment 5 6 5 6 0,
     ParameterCurveSegment 6 7 6 7 0, ParameterCurveSegment 7 8 7 8 0]"


subsection \<open>When a split keeps both halves on the side of the linearity threshold\<close>

text \<open>
  Not part of the program: the condition under which the two halves of a segment split at
  \<open>t\<close> are evaluated by the same formula as the segment. Either the segment is linear
  (\<open>\<bar>S\<bar> < 0.000001\<close>, and then so are both halves), or both shares of the shape
  stay at or above the threshold.
\<close>

definition split_keeps_formula :: "segment \<Rightarrow> real \<Rightarrow> bool" where
  "split_keeps_formula seg t \<longleftrightarrow>
     \<bar>curve_shape seg\<bar> < 0.000001
     \<or> (\<bar>(t - start_time seg) / (end_time seg - start_time seg) * curve_shape seg\<bar> \<ge> 0.000001
        \<and> \<bar>curve_shape seg
             - (t - start_time seg) / (end_time seg - start_time seg) * curve_shape seg\<bar> \<ge> 0.000001)"


subsection \<open>Construction and the compact serialized form\<close>

text \<open>
  \<^verbatim>\<open>_construct_segments_list(levels, durations, curve_shapes)\<close>: the loop over
  \<^verbatim>\<open>range(len(levels) - 1)\<close> with the running time \<open>t\<close>; an index beyond the end of
  \<^verbatim>\<open>durations\<close> or \<^verbatim>\<open>curve_shapes\<close> raises, and so does \<^verbatim>\<open>levels[0]\<close> on no level.
\<close>

fun construct_segments_list ::
    "real list \<Rightarrow> real list \<Rightarrow> real list \<Rightarrow> real \<Rightarrow> py_error + segment list" where
  "construct_segments_list [] durs shapes t = Inl IndexError"
| "construct_segments_list [l] durs shapes t = Inr []"
| "construct_segments_list (l0 # l1 # ls) durs shapes t =
     (case durs of
        [] \<Rightarrow> Inl IndexError
      | d # durs' \<Rightarrow>
          (case shapes of
             [] \<Rightarrow> Inl IndexError
           | s # shapes' \<Rightarrow>
               (case construct_segments_list (l1 # ls) durs' shapes' (t + d) of
                  Inl e \<Rightarrow> Inl e
                | Inr rest \<Rightarrow> Inr (ParameterCurveSegment t (t + d) l0 l1 s # rest))))"

text \<open>
  \<^verbatim>\<open>initialize(levels, durations, curve_shapes)\<close>, on a sequence of levels;
  \<^verbatim>\<open>from_levels_and_durations\<close> is \<^verbatim>\<open>cls().initialize\<close>.
\<close>

definition initialize :: "real list \<Rightarrow> real list \<Rightarrow> real list option \<Rightarrow> py_error + curve" where
  "initialize levels durs curve_shapes =
     (if \<not> length levels > 0 then Inl AssertionError
      else
        (let levels' = (if length levels = 1 then levels @ levels else levels) in
         if length durs \<noteq> length levels' - 1 then Inl AssertionError
         else
           (let shapes = (case curve_shapes of
                            None \<Rightarrow> replicate (length levels' - 1) 0
                          | Some given \<Rightarrow> given)
            in construct_segments_list levels' durs shapes 0)))"

definition from_levels_and_durations ::
    "real list \<Rightarrow> real list \<Rightarrow> real list option \<Rightarrow> py_error + curve" where
  "from_levels_and_durations levels durs curve_shapes = initialize levels durs curve_shapes"

text \<open>\<^verbatim>\<open>from_levels(levels, length)\<close>: segments of equal duration, all linear.\<close>

definition from_levels :: "real list \<Rightarrow> real \<Rightarrow> py_error + curve" where
  "from_levels levels total_length =
     (if \<not> length levels > 0 then Inl AssertionError
      else
        (let levels' = (if length levels = 1 then levels @ levels else levels);
             durs = replicate (length levels' - 1) (total_length / real (length levels' - 1));
             curves = replicate (length levels' - 1) 0
         in from_levels_and_durations levels' durs (Some curves)))"

text \<open>The three views of a curve; \<^verbatim>\<open>levels\<close> calls \<^verbatim>\<open>end_level()\<close>.\<close>

definition levels :: "curve \<Rightarrow> py_error + real list" where
  "levels c = (case curve_end_level c of Inl e \<Rightarrow> Inl e | Inr el \<Rightarrow> Inr (map start_level c @ [el]))"

definition durations :: "curve \<Rightarrow> real list" where
  "durations c = map duration c"

definition curve_shapes :: "curve \<Rightarrow> real list" where
  "curve_shapes c = map curve_shape c"

text \<open>
  The serialized form is a number or a sequence (a tuple or a list: what
  \<^verbatim>\<open>hasattr(x, "__len__")\<close> tells apart from a number).
\<close>

datatype json = JNum real | JArr "json list"

definition to_json :: "curve \<Rightarrow> py_error + json" where
  "to_json c =
     (case levels c of
        Inl e \<Rightarrow> Inl e
      | Inr lv \<Rightarrow>
          (let even_durations = list_all (\<lambda>x. x = durations c ! 0) (durations c);
               curvature_unnecessary = list_all (\<lambda>x. x = 0) (curve_shapes c)
           in if even_durations \<and> curvature_unnecessary then
                (if curve_length c = 1 then Inr (JArr (map JNum lv))
                 else Inr (JArr [JArr (map JNum lv), JNum (curve_length c)]))
              else if curvature_unnecessary
                then Inr (JArr [JArr (map JNum lv), JArr (map JNum (durations c))])
              else Inr (JArr [JArr (map JNum lv), JArr (map JNum (durations c)),
                              JArr (map JNum (curve_shapes c))])))"

text \<open>
  The numbers of a sequence. The segments of the model hold real levels, durations and
  shapes only, so a sequence with a nested sequence in it is answered with \<open>TypeError\<close>.
\<close>

fun numbers :: "json list \<Rightarrow> py_error + real list" where
  "numbers [] = Inr []"
| "numbers (JNum x # rest) = (case numbers rest of Inl e \<Rightarrow> Inl e | Inr xs \<Rightarrow> Inr (x # xs))"
| "numbers (JArr a # rest) = Inl TypeError"

definition built :: "py_error + curve \<Rightarrow> py_error + curve option" where
  "built r = (case r of Inl e \<Rightarrow> Inl e | Inr c \<Rightarrow> Inr (Some c))"

text \<open>
  \<^verbatim>\<open>from_list(constructor_list)\<close>. A list of one nested sequence falls through both
  branches and the method returns \<^verbatim>\<open>None\<close>, here \<open>Inr None\<close>. In the branch of three
  or more items \<^verbatim>\<open>initialize\<close> asserts that durations and curve shapes have a length.
\<close>

definition from_list :: "json \<Rightarrow> py_error + curve option" where
  "from_list constructor_list =
     (case constructor_list of
        JNum x \<Rightarrow> Inl TypeError
      | JArr [] \<Rightarrow> Inl IndexError
      | JArr (JNum x # rest) \<Rightarrow>
          (case numbers (JNum x # rest) of
             Inl e \<Rightarrow> Inl e
           | Inr lv \<Rightarrow> built (from_levels lv 1))
      | JArr (JArr first # rest) \<Rightarrow>
          (case numbers first of
             Inl e \<Rightarrow> Inl e
           | Inr lv \<Rightarrow>
               if length (JArr first # rest) = 2 then
                 (case rest ! 0 of
                    JArr second \<Rightarrow>
                      (case numbers second of
                         Inl e \<Rightarrow> Inl e
                       | Inr durs \<Rightarrow> built (from_levels_and_durations lv durs None))
                  | JNum total_length \<Rightarrow> built (from_levels lv total_length))
               else if length (JArr first # rest) \<ge> 3 then
                 (case (rest ! 0, rest ! 1) of
                    (JArr second, JArr third) \<Rightarrow>
                      (case numbers second of
                         Inl e \<Rightarrow> Inl e
                       | Inr durs \<Rightarrow>
                           (case numbers third of
                              Inl e \<Rightarrow> Inl e
                            | Inr shapes \<Rightarrow> built (from_levels_and_durations lv durs (Some shapes))))
                  | _ \<Rightarrow> Inl AssertionError)
               else Inr None))"

definition from_json :: "json \<Rightarrow> py_error + curve option" where
  "from_json json_list = from_list json_list"

text \<open>Adjacent segments share the level at their common boundary.\<close>

fun level_continuous :: "segment list \<Rightarrow> bool" where
  "level_continuous [] = True"
| "level_continuous [s] = True"
| "level_continuous (s # s' # ss) = (end_level s = start_level s' \<and> level_continuous (s' # ss))"


subsection \<open>Combining two segments over the same time range\<close>

text \<open>
  \<^verbatim>\<open>from_endpoints_and_halfway_level\<close>. After the assertion the two levels differ and the
  normalised halfway level lies strictly between 0 and 1; the guards of the division and of
  the logarithm are written out all the same.
\<close>

definition from_endpoints_and_halfway_level ::
    "real \<Rightarrow> real \<Rightarrow> real \<Rightarrow> real \<Rightarrow> real \<Rightarrow> py_error + segment" where
  "from_endpoints_and_halfway_level st et sl el halfway_level =
     (if \<not> (min sl el < halfway_level \<and> halfway_level < max sl el) then Inl AssertionError
      else if el = sl then Inr (ParameterCurveSegment st et sl el 0)
      else
        (let halfway_level_normalized = (halfway_level - sl) / (el - sl) in
         if halfway_level_normalized = 0 then Inl ZeroDivisionError
         else if 1 / halfway_level_normalized - 1 \<le> 0 then Inl ValueError
         else Inr (ParameterCurveSegment st et sl el
                     (2 * ln (1 / halfway_level_normalized - 1)))))"

text \<open>\<^verbatim>\<open>binary_function(input1.value_at(t), input2.value_at(t))\<close>.\<close>

definition combined_value ::
    "segment \<Rightarrow> segment \<Rightarrow> (real \<Rightarrow> real \<Rightarrow> real) \<Rightarrow> real \<Rightarrow> py_error + real" where
  "combined_value input1 input2 binary_function t =
     (case seg_value_at input1 t True of
        Inl e \<Rightarrow> Inl e
      | Inr a \<Rightarrow>
          (case seg_value_at input2 t True of
             Inl e \<Rightarrow> Inl e
           | Inr b \<Rightarrow> Inr (binary_function a b)))"

text \<open>
  The state of the sampling loop: \<^verbatim>\<open>split_points\<close>, \<^verbatim>\<open>value\<close>,
  \<^verbatim>\<open>first_difference\<close> and \<^verbatim>\<open>second_difference\<close>, the last three \<^verbatim>\<open>None\<close> at first.
\<close>

record sampling =
  split_points :: "real list"
  last_value :: "real option"
  first_difference :: "real option"
  second_difference :: "real option"

definition sample_step ::
    "segment \<Rightarrow> segment \<Rightarrow> (real \<Rightarrow> real \<Rightarrow> real) \<Rightarrow> nat \<Rightarrow> nat \<Rightarrow> sampling
       \<Rightarrow> py_error + sampling" where
  "sample_step input1 input2 binary_function resolution x st =
     (let t = start_time input1 + (real x / real resolution) * duration input1 in
      case combined_value input1 input2 binary_function t of
        Inl e \<Rightarrow> Inl e
      | Inr this_value \<Rightarrow>
          (case last_value st of
             None \<Rightarrow> Inr (st\<lparr>last_value := Some this_value\<rparr>)
           | Some v \<Rightarrow>
               (let this_difference = this_value - v in
                case first_difference st of
                  None \<Rightarrow> Inr (st\<lparr>first_difference := Some this_difference,
                                   last_value := Some this_value\<rparr>)
                | Some fd \<Rightarrow>
                    (let points1 = (if this_difference * fd < 0
                                    then split_points st @ [t] else split_points st);
                         this_second_difference = this_difference - fd;
                         points2 = (case second_difference st of
                                      None \<Rightarrow> points1
                                    | Some sd \<Rightarrow>
                                        if this_second_difference * sd < 0 \<and> t \<notin> set points1
                                        then points1 @ [t] else points1)
                     in Inr (st\<lparr>split_points := points2,
                                second_difference := Some this_second_difference,
                                first_difference := Some this_difference,
                                last_value := Some this_value\<rparr>)))))"

fun sample_loop ::
    "segment \<Rightarrow> segment \<Rightarrow> (real \<Rightarrow> real \<Rightarrow> real) \<Rightarrow> nat \<Rightarrow> nat list \<Rightarrow> sampling
       \<Rightarrow> py_error + sampling" where
  "sample_loop input1 input2 binary_function resolution [] st = Inr st"
| "sample_loop input1 input2 binary_function resolution (x # xs) st =
     (case sample_step input1 input2 binary_function resolution x st of
        Inl e \<Rightarrow> Inl e
      | Inr st' \<Rightarrow> sample_loop input1 input2 binary_function resolution xs st')"

text \<open>
  The loop that fits one segment per interval of key points; \<^verbatim>\<open>i < len(key_points) - 1\<close>
  is \<open>i + 1 < length key_points\<close>. An interval whose halfway value is not strictly
  between its end values gets its midpoint inserted as a key point and is tried again. A run
  that never leaves the loop has the value \<open>None\<close>.
\<close>

partial_function (option) split_loop ::
    "segment \<Rightarrow> segment \<Rightarrow> (real \<Rightarrow> real \<Rightarrow> real) \<Rightarrow> real list \<Rightarrow> nat \<Rightarrow> segment list
       \<Rightarrow> (py_error + segment list) option" where
  "split_loop input1 input2 binary_function key_points i segments =
     (if i + 1 < length key_points then
        (let segment_start = key_points ! i;
             segment_end = key_points ! (i + 1);
             halfway_point = (segment_start + segment_end) / 2
         in case combined_value input1 input2 binary_function segment_start of
              Inl e \<Rightarrow> Some (Inl e)
            | Inr segment_start_value \<Rightarrow>
                (case combined_value input1 input2 binary_function segment_end of
                   Inl e \<Rightarrow> Some (Inl e)
                 | Inr segment_end_value \<Rightarrow>
                     (case combined_value input1 input2 binary_function halfway_point of
                        Inl e \<Rightarrow> Some (Inl e)
                      | Inr segment_halfway_value \<Rightarrow>
                          if \<not> (min segment_start_value segment_end_value < segment_halfway_value
                                \<and> segment_halfway_value < max segment_start_value segment_end_value)
                          then split_loop input1 input2 binary_function
                                 (take (i + 1) key_points @ halfway_point # drop (i + 1) key_points)
                                 i segments
                          else
                            (case from_endpoints_and_halfway_level segment_start segment_end
                                    segment_start_value segment_end_value segment_halfway_value of
                               Inl e \<Rightarrow> Some (Inl e)
                             | Inr fitted \<Rightarrow>
                                 split_loop input1 input2 binary_function key_points (i + 1)
                                   (segments @ [fitted])))))
      else Some (Inr segments))"

text \<open>The result is a single segment or a curve of the fitted segments.\<close>

datatype combined = OneSegment segment | CurveOf curve

definition split_binary_function_applied_pair ::
    "segment \<Rightarrow> segment \<Rightarrow> (real \<Rightarrow> real \<Rightarrow> real) \<Rightarrow> nat \<Rightarrow> (py_error + combined) option" where
  "split_binary_function_applied_pair input1 input2 binary_function resolution =
     (if start_time input2 = start_time input1 \<and> end_time input2 = end_time input1 then
        (case sample_loop input1 input2 binary_function resolution [0..<resolution]
                \<lparr>split_points = [], last_value = None, first_difference = None,
                 second_difference = None\<rparr> of
           Inl e \<Rightarrow> Some (Inl e)
         | Inr st \<Rightarrow>
             (let key_points = [start_time input1] @ split_points st @ [end_time input1] in
              case split_loop input1 input2 binary_function key_points 0 [] of
                None \<Rightarrow> None
              | Some (Inl e) \<Rightarrow> Some (Inl e)
              | Some (Inr segments) \<Rightarrow>
                  if length segments = 1 then Some (Inr (OneSegment (segments ! 0)))
                  else Some (Inr (CurveOf segments))))
      else Some (Inl ValueError))"

text \<open>
  \<^verbatim>\<open>__add__\<close> and \<^verbatim>\<open>__mul__\<close> of a segment with another segment, at the default
  resolution of 60.
\<close>

definition segment_add :: "segment \<Rightarrow> segment \<Rightarrow> (py_error + combined) option" where
  "segment_add seg other = split_binary_function_applied_pair seg other (\<lambda>a b. a + b) 60"

definition segment_mul :: "segment \<Rightarrow> segment \<Rightarrow> (py_error + combined) option" where
  "segment_mul seg other = split_binary_function_applied_pair seg other (\<lambda>a b. a * b) 60"


section \<open>Properties\<close>

subsection \<open>Consequences of the invariant\<close>

lemma ends_le_last:
  "contiguous c \<Longrightarrow> segments_valid c \<Longrightarrow> seg \<in> set c \<Longrightarrow> end_time seg \<le> end_time (last c)"
proof (induction c arbitrary: seg rule: contiguous.induct)
  case 1
  then show ?case by simp
next
  case (2 s)
  then show ?case by simp
next
  case (3 s s' ss)
  have v: "segments_valid (s' # ss)" using 3(3) by (simp add: segments_valid_def)
  have c: "contiguous (s' # ss)" using 3(2) by simp
  have hd_le: "end_time s' \<le> end_time (last (s' # ss))" using 3(1)[OF c v, of s'] by simp
  show ?case
  proof (cases "seg = s")
    case True
    have "end_time s = start_time s'" using 3(2) by simp
    moreover have "start_time s' \<le> end_time s'" using 3(3) by (simp add: segments_valid_def)
    ultimately show ?thesis using hd_le True by simp
  next
    case False
    then have "seg \<in> set (s' # ss)" using 3(4) by simp
    then show ?thesis using 3(1)[OF c v] by simp
  qed
qed

lemma starts_ge_first_end:
  "contiguous (s # c) \<Longrightarrow> segments_valid (s # c) \<Longrightarrow> seg \<in> set c \<Longrightarrow> end_time s \<le> start_time seg"
proof (induction c arbitrary: s)
  case Nil
  then show ?case by simp
next
  case (Cons a c)
  have e: "end_time s = start_time a" using Cons.prems(1) by simp
  show ?case
  proof (cases "seg = a")
    case True
    then show ?thesis using e by simp
  next
    case False
    then have m: "seg \<in> set c" using Cons.prems(3) by simp
    have "contiguous (a # c)" using Cons.prems(1) by simp
    moreover have "segments_valid (a # c)" using Cons.prems(2) by (simp add: segments_valid_def)
    ultimately have "end_time a \<le> start_time seg" using Cons.IH m by blast
    moreover have "start_time a \<le> end_time a" using Cons.prems(2) by (simp add: segments_valid_def)
    ultimately show ?thesis using e by simp
  qed
qed

lemma find_rev_first:
  "P x \<Longrightarrow> \<forall>y\<in>set xs. \<not> P y \<Longrightarrow> find P (rev (x # xs)) = Some x"
  by (induction xs rule: rev_induct) auto

lemma find_none: "\<forall>y\<in>set xs. \<not> P y \<Longrightarrow> find P xs = None"
  by (simp add: find_None_iff)

lemma contiguous_tl: "contiguous (a # xs) \<Longrightarrow> contiguous xs"
  by (cases xs) auto

lemma contiguous_append_right: "contiguous (pre @ rest) \<Longrightarrow> contiguous rest"
  by (induction pre) (auto dest: contiguous_tl)

lemma segments_valid_append:
  "segments_valid (xs @ ys) \<longleftrightarrow> segments_valid xs \<and> segments_valid ys"
  by (simp add: segments_valid_def)

lemma segments_valid_Cons:
  "segments_valid (x # xs) \<longleftrightarrow> start_time x \<le> end_time x \<and> segments_valid xs"
  by (simp add: segments_valid_def)

lemma find_rev_last_match:
  "P x \<Longrightarrow> \<forall>y\<in>set post. \<not> P y \<Longrightarrow> find P (rev (pre @ x # post)) = Some x"
  by (induction post rule: rev_induct) auto

lemma containing_segment_unique:
  assumes "contiguous c" "segments_valid c" "seg \<in> set c" "contains seg t"
  shows "find (\<lambda>s. contains s t) (rev c) = Some seg"
proof -
  obtain pre post where c: "c = pre @ seg # post" using assms(3) by (auto dest: split_list)
  have cont: "contiguous (seg # post)" using assms(1) c contiguous_append_right by blast
  have val: "segments_valid (seg # post)" using assms(2) c by (simp add: segments_valid_append)
  have "\<forall>y\<in>set post. \<not> contains y t"
  proof
    fix y assume "y \<in> set post"
    then have "end_time seg \<le> start_time y" using starts_ge_first_end[OF cont val] by blast
    then show "\<not> contains y t" using assms(4) by (simp add: contains_def)
  qed
  then show ?thesis unfolding c using assms(4) by (intro find_rev_last_match) auto
qed

lemma segments_cover:
  assumes "contiguous c" "c \<noteq> []" "start_time (hd c) \<le> x" "x < end_time (last c)"
  shows "\<exists>seg\<in>set c. contains seg x"
  using assms
proof (induction c rule: contiguous.induct)
  case 1
  then show ?case by simp
next
  case (2 s)
  then show ?case by (simp add: contains_def)
next
  case (3 s s' ss)
  show ?case
  proof (cases "x < end_time s")
    case True
    then show ?thesis using 3(4) by (auto simp: contains_def)
  next
    case False
    then have "start_time (hd (s' # ss)) \<le> x" using 3(2) by simp
    moreover have "contiguous (s' # ss)" using 3(2) by simp
    moreover have "x < end_time (last (s' # ss))" using 3(5) by simp
    ultimately have "\<exists>seg\<in>set (s' # ss). contains seg x" using 3(1) by blast
    then show ?thesis by auto
  qed
qed

lemma starts_nonneg:
  assumes "curve_invariant c" "segments_valid c" "seg \<in> set c"
  shows "0 \<le> start_time seg"
proof -
  obtain s ss where c: "c = s # ss" using assms(1) by (cases c) (auto simp: curve_invariant_def)
  have "contiguous (s # ss)" "start_time s = 0" using assms(1) c by (auto simp: curve_invariant_def)
  moreover have "start_time s \<le> end_time s" using assms(2) c by (simp add: segments_valid_Cons)
  ultimately show ?thesis using assms(2,3) c starts_ge_first_end[of s ss seg] by auto
qed

lemma py_max_upper:
  assumes "xs \<noteq> []"
  shows "\<exists>m. py_max xs = Inr m \<and> m \<in> set xs \<and> (\<forall>x\<in>set xs. x \<le> m)"
proof -
  obtain x rest where xs: "xs = x # rest" using assms by (cases xs) auto
  have "fold max rest x = Max (set (x # rest))" by (rule Max.set_eq_fold[symmetric])
  then have "py_max xs = Inr (Max (set xs))" using xs by (simp add: py_max_def)
  moreover have "Max (set xs) \<in> set xs" using assms by (intro Max_in) auto
  moreover have "\<forall>y\<in>set xs. y \<le> Max (set xs)" by auto
  ultimately show ?thesis by blast
qed


subsection \<open>The interpolation is monotone in time\<close>

lemma seg_value_at_progress:
  "seg_value_at seg t True = Inr (start_level seg + (end_level seg - start_level seg) * progress seg t)"
  by (auto simp: seg_value_at_def progress_def shape_fraction_def Let_def)

lemma shape_fraction_mono:
  assumes "S \<noteq> 0" "u \<le> v"
  shows "shape_fraction S u \<le> shape_fraction S v"
proof (cases "S > 0")
  case True
  then have "exp S - 1 > 0" by simp
  moreover have "exp (S * u) \<le> exp (S * v)" using True assms(2) by (simp add: mult_left_mono)
  ultimately show ?thesis unfolding shape_fraction_def by (simp add: divide_right_mono)
next
  case False
  then have neg: "S < 0" using assms(1) by simp
  then have "exp S - 1 < 0" by simp
  moreover have "exp (S * v) \<le> exp (S * u)" using neg assms(2) by (simp add: mult_left_mono_neg)
  ultimately show ?thesis unfolding shape_fraction_def by (simp add: divide_right_mono_neg)
qed

lemma shape_fraction_0: "shape_fraction S 0 = 0"
  by (simp add: shape_fraction_def)

lemma shape_fraction_1: "S \<noteq> 0 \<Longrightarrow> shape_fraction S 1 = 1"
  by (simp add: shape_fraction_def)

lemma progress_mono:
  assumes "start_time seg \<le> end_time seg" "a \<le> b"
  shows "progress seg a \<le> progress seg b"
proof -
  let ?d = "end_time seg - start_time seg"
  let ?S = "curve_shape seg"
  have frac_bounds: "0 \<le> shape_fraction ?S u \<and> shape_fraction ?S u \<le> 1"
    if "0 \<le> u" "u \<le> 1" "\<not> \<bar>?S\<bar> < 0.000001" for u
  proof -
    have ne: "?S \<noteq> 0" using that(3) by auto
    show ?thesis
      using shape_fraction_mono[OF ne that(1)] shape_fraction_mono[OF ne that(2)]
      by (simp add: shape_fraction_0 shape_fraction_1[OF ne])
  qed
  have norm_bounds: "0 \<le> (t - start_time seg) / ?d \<and> (t - start_time seg) / ?d \<le> 1"
    if "start_time seg < t" "t < end_time seg" for t
    using that by (simp add: divide_le_eq)
  consider (hi) "b \<ge> end_time seg" | (lo) "a \<le> start_time seg" "b < end_time seg"
    | (mid) "start_time seg < a" "b < end_time seg"
    by linarith
  then show ?thesis
  proof cases
    case hi
    then have pb: "progress seg b = 1" by (simp add: progress_def)
    show ?thesis
    proof (cases "start_time seg < a \<and> a < end_time seg")
      case True
      then show ?thesis
        using pb norm_bounds[of a] frac_bounds[of "(a - start_time seg) / ?d"]
        by (auto simp: progress_def)
    next
      case False
      then show ?thesis using pb by (auto simp: progress_def)
    qed
  next
    case lo
    then have pa: "progress seg a = 0" using assms by (auto simp: progress_def)
    show ?thesis
    proof (cases "start_time seg < b")
      case True
      then show ?thesis
        using pa lo(2) norm_bounds[of b] frac_bounds[of "(b - start_time seg) / ?d"]
        by (auto simp: progress_def)
    next
      case False
      then show ?thesis using pa lo(2) by (auto simp: progress_def)
    qed
  next
    case mid
    have d: "0 < ?d" using mid assms(2) by linarith
    have le: "(a - start_time seg) / ?d \<le> (b - start_time seg) / ?d"
      using assms(2) d by (simp add: divide_right_mono)
    show ?thesis
    proof (cases "\<bar>?S\<bar> < 0.000001")
      case True
      then show ?thesis using mid assms(2) le by (simp add: progress_def)
    next
      case False
      then have ne: "?S \<noteq> 0" by auto
      show ?thesis using mid assms(2) False shape_fraction_mono[OF ne le] by (simp add: progress_def)
    qed
  qed
qed

lemma progress_start: "start_time seg < end_time seg \<Longrightarrow> progress seg (start_time seg) = 0"
  by (simp add: progress_def)

lemma progress_end: "progress seg (end_time seg) = 1"
  by (simp add: progress_def)

lemma progress_bounds:
  assumes "start_time seg < end_time seg"
  shows "0 \<le> progress seg t \<and> progress seg t \<le> 1"
proof -
  have v: "start_time seg \<le> end_time seg" using assms by simp
  have "progress seg (min t (start_time seg)) \<le> progress seg t"
    by (rule progress_mono[OF v]) simp
  moreover have "progress seg (min t (start_time seg)) = 0" using assms by (simp add: progress_def)
  moreover have "progress seg t \<le> progress seg (max t (end_time seg))"
    by (rule progress_mono[OF v]) simp
  moreover have "progress seg (max t (end_time seg)) = 1" by (simp add: progress_def)
  ultimately show ?thesis by simp
qed

lemma between_levels:
  assumes "0 \<le> (p::real)" "p \<le> 1"
  shows "min x y \<le> x + (y - x) * p \<and> x + (y - x) * p \<le> max x y"
proof (cases "x \<le> y")
  case True
  have "0 \<le> (y - x) * p" using True assms(1) by simp
  then have lo: "x \<le> x + (y - x) * p" by linarith
  have "(y - x) * p \<le> (y - x) * 1"
    by (rule mult_left_mono) (use True assms(2) in simp_all)
  then have "(y - x) * p \<le> y - x" by (simp only: mult_1_right)
  then have hi: "x + (y - x) * p \<le> y" by linarith
  have "min x y = x" "max x y = y" using True by simp_all
  then show ?thesis using lo hi by (simp only: simp_thms)
next
  case False
  have "(y - x) * p \<le> 0" using False assms(1) by (simp add: mult_le_0_iff)
  then have hi: "x + (y - x) * p \<le> x" by linarith
  have "(y - x) * 1 \<le> (y - x) * p"
    by (rule mult_left_mono_neg) (use False assms(2) in simp_all)
  then have "y - x \<le> (y - x) * p" by (simp only: mult_1_right)
  then have lo: "y \<le> x + (y - x) * p" by linarith
  have "min x y = y" "max x y = x" using False by simp_all
  then show ?thesis using lo hi by (simp only: simp_thms)
qed

lemma seg_value_bounded:
  assumes "start_time seg < end_time seg"
  shows "\<exists>v. seg_value_at seg t True = Inr v
             \<and> min (start_level seg) (end_level seg) \<le> v \<and> v \<le> max (start_level seg) (end_level seg)"
  using between_levels[of "progress seg t" "start_level seg" "end_level seg"] progress_bounds[OF assms, of t]
  by (simp add: seg_value_at_progress)

lemma seg_value_between:
  assumes "start_time seg \<le> end_time seg" "a \<le> x" "x \<le> b"
    and "seg_value_at seg a True = Inr va" "seg_value_at seg b True = Inr vb"
    and "seg_value_at seg x True = Inr v"
  shows "v \<le> max va vb"
proof -
  let ?k = "end_level seg - start_level seg"
  have pa: "progress seg a \<le> progress seg x" and pb: "progress seg x \<le> progress seg b"
    using progress_mono[OF assms(1)] assms(2,3) by auto
  have va: "va = start_level seg + ?k * progress seg a"
    and vb: "vb = start_level seg + ?k * progress seg b"
    and v: "v = start_level seg + ?k * progress seg x"
    using assms(4,5,6) by (simp_all add: seg_value_at_progress)
  show ?thesis
  proof (cases "0 \<le> ?k")
    case True
    then have "?k * progress seg x \<le> ?k * progress seg b" using pb by (simp add: mult_left_mono)
    then show ?thesis using v vb by simp
  next
    case False
    then have "?k * progress seg x \<le> ?k * progress seg a" using pa by (simp add: mult_left_mono_neg)
    then show ?thesis using v va by simp
  qed
qed


subsection \<open>Evaluation and maximum of a curve\<close>

lemma find_Some_mem: "find P xs = Some x \<Longrightarrow> P x \<and> x \<in> set xs"
  by (induction xs) (auto split: if_splits)

lemma curve_value_at_cases:
  assumes "c \<noteq> []"
  shows "(x < 0 \<and> curve_value_at c x = Inr (start_level (hd c)))
       \<or> (0 \<le> x \<and> (\<exists>seg\<in>set c. contains seg x \<and> find (\<lambda>s. contains s x) (rev c) = Some seg
                        \<and> curve_value_at c x = seg_value_at seg x True))
       \<or> (0 \<le> x \<and> (\<forall>seg\<in>set c. \<not> contains seg x) \<and> curve_value_at c x = Inr (end_level (last c)))"
proof (cases "x < 0")
  case True
  then show ?thesis using assms by (cases c) (auto simp: curve_value_at_def curve_start_level_def)
next
  case False
  show ?thesis
  proof (cases "find (\<lambda>s. contains s x) (rev c)")
    case None
    then have "\<forall>seg\<in>set c. \<not> contains seg x" by (auto simp: find_None_iff)
    then show ?thesis using False None assms by (simp add: curve_value_at_def curve_end_level_def)
  next
    case (Some seg)
    then have "seg \<in> set c" "contains seg x" using find_Some_mem[of _ "rev c" seg] by auto
    then show ?thesis using False Some by (auto simp: curve_value_at_def)
  qed
qed

lemma curve_value_at_total:
  assumes "c \<noteq> []"
  shows "\<exists>v. curve_value_at c x = Inr v"
  using curve_value_at_cases[OF assms, of x] by (auto simp: seg_value_at_progress)

lemma start_level_in_points:
  "seg \<in> set c \<Longrightarrow> t1 \<le> start_time seg \<Longrightarrow> start_time seg \<le> t2
     \<Longrightarrow> start_level seg \<in> set (concat (map (points_in_range t1 t2) c))"
  by (auto simp: points_in_range_def)

lemma end_level_in_points:
  "seg \<in> set c \<Longrightarrow> t1 \<le> end_time seg \<Longrightarrow> end_time seg \<le> t2
     \<Longrightarrow> end_level seg \<in> set (concat (map (points_in_range t1 t2) c))"
  by (auto simp: points_in_range_def)

lemma curve_max_level_range_upper:
  assumes inv: "curve_invariant c" and val: "segments_valid c" and lt: "t1 < t2"
  shows "\<exists>m. curve_max_level c (Some (t1, t2)) = Inr m
             \<and> (\<forall>x. t1 \<le> x \<and> x \<le> t2 \<longrightarrow> (\<exists>v. curve_value_at c x = Inr v \<and> v \<le> m))"
proof -
  have ne: "c \<noteq> []" and cont: "contiguous c" and h0: "start_time (hd c) = 0"
    using inv by (auto simp: curve_invariant_def)
  obtain v1 where v1: "curve_value_at c t1 = Inr v1" using curve_value_at_total[OF ne] by blast
  obtain v2 where v2: "curve_value_at c t2 = Inr v2" using curve_value_at_total[OF ne] by blast
  let ?anchors = "concat (map (points_in_range t1 t2) c)"
  let ?points = "[v1, v2] @ ?anchors"
  obtain m where m: "py_max ?points = Inr m" and upper: "\<forall>p\<in>set ?points. p \<le> m"
    using py_max_upper[of ?points] by auto
  have cm: "curve_max_level c (Some (t1, t2)) = Inr m"
    using lt v1 v2 m by (simp add: curve_max_level_def)
  have v1m: "v1 \<le> m" and v2m: "v2 \<le> m" using upper by simp_all
  have anchor: "p \<le> m" if "p \<in> set ?anchors" for p using upper that by auto
  have hd_in: "hd c \<in> set c" and last_in: "last c \<in> set c" using ne by simp_all
  have bound: "\<exists>v. curve_value_at c x = Inr v \<and> v \<le> m" if x1: "t1 \<le> x" and x2: "x \<le> t2" for x
  proof -
    consider (neg) "x < 0" "curve_value_at c x = Inr (start_level (hd c))"
      | (inside) seg where "0 \<le> x" "seg \<in> set c" "contains seg x"
          "curve_value_at c x = seg_value_at seg x True"
      | (beyond) "0 \<le> x" "\<forall>seg\<in>set c. \<not> contains seg x"
          "curve_value_at c x = Inr (end_level (last c))"
      using curve_value_at_cases[OF ne, of x] by blast
    then show ?thesis
    proof cases
      case neg
      have "start_level (hd c) \<le> m"
      proof (cases "t2 < 0")
        case True
        then have "curve_value_at c t2 = Inr (start_level (hd c))"
          using ne by (cases c) (auto simp: curve_value_at_def curve_start_level_def)
        then show ?thesis using v2 v2m by simp
      next
        case False
        then have "start_level (hd c) \<in> set ?anchors"
          using start_level_in_points[OF hd_in, of t1 t2] h0 neg(1) x1 by simp
        then show ?thesis by (rule anchor)
      qed
      then show ?thesis using neg(2) by simp
    next
      case (inside seg)
      have sv: "start_time seg \<le> end_time seg" using inside(3) by (simp add: contains_def)
      obtain v where v: "seg_value_at seg x True = Inr v" by (simp add: seg_value_at_progress)
      let ?a = "max (start_time seg) t1" and ?b = "min (end_time seg) t2"
      obtain va where va: "seg_value_at seg ?a True = Inr va" by (simp add: seg_value_at_progress)
      obtain vb where vb: "seg_value_at seg ?b True = Inr vb" by (simp add: seg_value_at_progress)
      have ax: "?a \<le> x" and xb: "x \<le> ?b" using inside(3) x1 x2 by (simp_all add: contains_def)
      have vle: "v \<le> max va vb" using seg_value_between[OF sv ax xb va vb v] .
      have va_m: "va \<le> m"
      proof (cases "t1 \<le> start_time seg")
        case True
        then have "?a = start_time seg" by simp
        then have "va = start_level seg"
          using va inside(3) by (simp add: seg_value_at_def contains_def)
        moreover have "start_level seg \<in> set ?anchors"
          using start_level_in_points[OF inside(2) True] inside(3) x2 by (simp add: contains_def)
        ultimately show ?thesis using anchor by simp
      next
        case False
        then have a: "?a = t1" by simp
        have ct: "contains seg t1" using False inside(3) x1 by (simp add: contains_def)
        have "0 \<le> start_time seg" using starts_nonneg[OF inv val inside(2)] .
        then have "0 \<le> t1" using False by simp
        moreover have "find (\<lambda>s. contains s t1) (rev c) = Some seg"
          using containing_segment_unique[OF cont val inside(2) ct] .
        ultimately have "curve_value_at c t1 = seg_value_at seg t1 True"
          by (simp add: curve_value_at_def)
        then have "va = v1" using va v1 a by simp
        then show ?thesis using v1m by simp
      qed
      have vb_m: "vb \<le> m"
      proof (cases "end_time seg \<le> t2")
        case True
        then have "?b = end_time seg" by simp
        then have "vb = end_level seg" using vb by (simp add: seg_value_at_def)
        moreover have "end_level seg \<in> set ?anchors"
          using end_level_in_points[OF inside(2) _ True] inside(3) x1 by (simp add: contains_def)
        ultimately show ?thesis using anchor by simp
      next
        case False
        then have b: "?b = t2" by simp
        have ct: "contains seg t2" using False inside(3) x2 by (simp add: contains_def)
        have "0 \<le> t2" using inside(1) x2 by simp
        moreover have "find (\<lambda>s. contains s t2) (rev c) = Some seg"
          using containing_segment_unique[OF cont val inside(2) ct] .
        ultimately have "curve_value_at c t2 = seg_value_at seg t2 True"
          by (simp add: curve_value_at_def)
        then have "vb = v2" using vb v2 b by simp
        then show ?thesis using v2m by simp
      qed
      show ?thesis using inside(4) v vle va_m vb_m by simp
    next
      case beyond
      have Lx: "end_time (last c) \<le> x"
      proof (rule ccontr)
        assume "\<not> end_time (last c) \<le> x"
        then have "\<exists>seg\<in>set c. contains seg x"
          using segments_cover[OF cont ne, of x] h0 beyond(1) by simp
        then show False using beyond(2) by blast
      qed
      have "end_level (last c) \<le> m"
      proof (cases "t1 \<le> end_time (last c)")
        case True
        then have "end_level (last c) \<in> set ?anchors"
          using end_level_in_points[OF last_in True] Lx x2 by simp
        then show ?thesis by (rule anchor)
      next
        case False
        have "\<forall>seg\<in>set c. \<not> contains seg t1"
          using ends_le_last[OF cont val] False by (fastforce simp: contains_def)
        then have "find (\<lambda>s. contains s t1) (rev c) = None" by (simp add: find_None_iff)
        moreover have "0 \<le> t1" using starts_nonneg[OF inv val last_in] val last_in False
          by (auto simp: segments_valid_def list_all_iff)
        ultimately have "curve_value_at c t1 = Inr (end_level (last c))"
          using ne by (simp add: curve_value_at_def curve_end_level_def)
        then show ?thesis using v1 v1m by simp
      qed
      then show ?thesis using beyond(3) by simp
    qed
  qed
  show ?thesis using cm bound by blast
qed


subsection \<open>The integral of a curve in closed form\<close>

lemma trapezoid_primitive:
  fixes d x y p q :: real
  assumes "d \<noteq> 0"
  shows "(y - x) * ((1 - x / d) * p + x / d * q + ((1 - y / d) * p + y / d * q)) / 2
         = (p * y + (q - p) * y\<^sup>2 / (2 * d)) - (p * x + (q - p) * x\<^sup>2 / (2 * d))"
  using assms by (simp add: field_simps power2_eq_square)

lemma integrate_segment_primitive:
  assumes "start_time seg \<le> a" "a \<le> end_time seg" "start_time seg \<le> b" "b \<le> end_time seg"
  shows "integrate_segment seg a b = Inr (seg_primitive seg b - seg_primitive seg a)"
proof (cases "a = b")
  case True
  then show ?thesis using assms by (simp add: integrate_segment_def)
next
  case False
  then have d: "end_time seg - start_time seg \<noteq> 0" using assms by linarith
  show ?thesis
  proof (cases "calculate_coefficients seg")
    case None
    have ba: "b - a = (b - start_time seg) - (a - start_time seg)" by simp
    have "integrate_segment seg a b
          = Inr (((b - start_time seg) - (a - start_time seg))
               * ((1 - (a - start_time seg) / (end_time seg - start_time seg)) * start_level seg
                  + (a - start_time seg) / (end_time seg - start_time seg) * end_level seg
                  + ((1 - (b - start_time seg) / (end_time seg - start_time seg)) * start_level seg
                     + (b - start_time seg) / (end_time seg - start_time seg) * end_level seg)) / 2)"
      using assms False d None by (simp add: integrate_segment_def Let_def)
    also have "\<dots> = Inr (seg_primitive seg b - seg_primitive seg a)"
      unfolding trapezoid_primitive[OF d] using None by (simp add: seg_primitive_def)
    finally show ?thesis .
  next
    case (Some AB)
    then show ?thesis using assms False d
      by (simp add: integrate_segment_def seg_primitive_def Let_def algebra_simps)
  qed
qed

lemma seg_area_same: "seg_area seg a a = 0"
  by (simp add: seg_area_def)

lemma clamp_below: "start_time seg \<le> end_time seg \<Longrightarrow> t \<le> start_time seg \<Longrightarrow> clamp seg t = start_time seg"
  by (simp add: clamp_def)

lemma clamp_above: "start_time seg \<le> end_time seg \<Longrightarrow> end_time seg \<le> t \<Longrightarrow> clamp seg t = end_time seg"
  by (simp add: clamp_def)

lemma clamp_inside: "start_time seg \<le> t \<Longrightarrow> t \<le> end_time seg \<Longrightarrow> clamp seg t = t"
  by (simp add: clamp_def)

lemma seg_area_before:
  "start_time seg \<le> end_time seg \<Longrightarrow> a \<le> start_time seg \<Longrightarrow> b \<le> start_time seg \<Longrightarrow> seg_area seg a b = 0"
  by (simp add: seg_area_def clamp_below)

lemma seg_area_after:
  "start_time seg \<le> end_time seg \<Longrightarrow> end_time seg \<le> a \<Longrightarrow> end_time seg \<le> b \<Longrightarrow> seg_area seg a b = 0"
  by (simp add: seg_area_def clamp_above)

lemma sum_list_all_zero: "(\<And>x. x \<in> set xs \<Longrightarrow> f x = (0::real)) \<Longrightarrow> (\<Sum>x\<leftarrow>xs. f x) = 0"
  by (induction xs) auto

lemma areas_after_zero:
  assumes "contiguous (seg # rest)" "segments_valid (seg # rest)" "a \<le> end_time seg" "b \<le> end_time seg"
  shows "(\<Sum>s\<leftarrow>rest. seg_area s a b) = 0"
proof -
  have "seg_area s a b = 0" if "s \<in> set rest" for s
  proof -
    have "end_time seg \<le> start_time s" using starts_ge_first_end[OF assms(1,2) that] .
    moreover have "start_time s \<le> end_time s"
      using assms(2) that by (auto simp: segments_valid_def list_all_iff)
    ultimately show ?thesis using assms(3,4) by (intro seg_area_before) auto
  qed
  then show ?thesis by (rule sum_list_all_zero)
qed

lemma integrate_loop_area:
  assumes "contiguous segs" "segments_valid segs" "t1 < t2"
  shows "integrate_loop segs t1 t2 integral = Inr (integral + (\<Sum>s\<leftarrow>segs. seg_area s t1 t2))"
  using assms
proof (induction segs arbitrary: integral)
  case Nil
  then show ?case by simp
next
  case (Cons seg rest)
  have v: "start_time seg \<le> end_time seg" using Cons.prems(2) by (simp add: segments_valid_Cons)
  have cr: "contiguous rest" using Cons.prems(1) by (rule contiguous_tl)
  have vr: "segments_valid rest" using Cons.prems(2) by (simp add: segments_valid_Cons)
  have IH: "integrate_loop rest t1 t2 acc = Inr (acc + (\<Sum>s\<leftarrow>rest. seg_area s t1 t2))" for acc
    using Cons.IH[OF cr vr Cons.prems(3)] .
  have seg_int: "integrate_segment seg a b = Inr (seg_primitive seg b - seg_primitive seg a)"
    if "start_time seg \<le> a" "a \<le> end_time seg" "start_time seg \<le> b" "b \<le> end_time seg" for a b
    using integrate_segment_primitive[OF that] .
  consider (before_end) "t1 < start_time seg" "start_time seg < t2" "t2 \<le> end_time seg"
    | (before_through) "t1 < start_time seg" "start_time seg < t2" "end_time seg < t2"
    | (before_none) "t1 < start_time seg" "t2 \<le> start_time seg"
    | (in_both) "start_time seg \<le> t1" "t1 < end_time seg" "t2 < end_time seg"
    | (in_through) "start_time seg \<le> t1" "t1 < end_time seg" "end_time seg \<le> t2"
    | (after) "end_time seg \<le> t1"
    by linarith
  then show ?case
  proof cases
    case before_end
    have "integrate_segment seg (start_time seg) t2
          = Inr (seg_primitive seg t2 - seg_primitive seg (start_time seg))"
      using seg_int[of "start_time seg" t2] before_end v by simp
    moreover have "seg_area seg t1 t2 = seg_primitive seg t2 - seg_primitive seg (start_time seg)"
      using before_end v by (simp add: seg_area_def clamp_below clamp_inside)
    moreover have "(\<Sum>s\<leftarrow>rest. seg_area s t1 t2) = 0"
      using areas_after_zero[OF Cons.prems(1,2), of t1 t2] before_end v by simp
    ultimately show ?thesis using before_end by simp
  next
    case before_through
    have "integrate_segment seg (start_time seg) (end_time seg)
          = Inr (seg_primitive seg (end_time seg) - seg_primitive seg (start_time seg))"
      using seg_int[of "start_time seg" "end_time seg"] v by simp
    moreover have "seg_area seg t1 t2 = seg_primitive seg (end_time seg) - seg_primitive seg (start_time seg)"
      using before_through v by (simp add: seg_area_def clamp_below clamp_above)
    ultimately show ?thesis using before_through IH by (simp add: add.assoc)
  next
    case before_none
    have "seg_area seg t1 t2 = 0" using before_none v by (simp add: seg_area_before)
    then show ?thesis using before_none IH by simp
  next
    case in_both
    have "integrate_segment seg t1 t2 = Inr (seg_primitive seg t2 - seg_primitive seg t1)"
      using seg_int[of t1 t2] in_both Cons.prems(3) by simp
    moreover have "seg_area seg t1 t2 = seg_primitive seg t2 - seg_primitive seg t1"
      using in_both Cons.prems(3) by (simp add: seg_area_def clamp_inside)
    moreover have "(\<Sum>s\<leftarrow>rest. seg_area s t1 t2) = 0"
      using areas_after_zero[OF Cons.prems(1,2), of t1 t2] in_both by simp
    ultimately show ?thesis using in_both Cons.prems(3) by (simp add: contains_def)
  next
    case in_through
    have "integrate_segment seg t1 (end_time seg) = Inr (seg_primitive seg (end_time seg) - seg_primitive seg t1)"
      using seg_int[of t1 "end_time seg"] in_through by simp
    moreover have "seg_area seg t1 t2 = seg_primitive seg (end_time seg) - seg_primitive seg t1"
      using in_through v by (simp add: seg_area_def clamp_inside clamp_above)
    ultimately show ?thesis using in_through IH by (simp add: contains_def add.assoc)
  next
    case after
    have "seg_area seg t1 t2 = 0" using after v Cons.prems(3) by (simp add: seg_area_after)
    then show ?thesis using after v IH by (simp add: contains_def)
  qed
qed

lemma bisect_start_index_result:
  assumes "start_index < length c" "start_index = 0 \<or> end_time (c ! start_index) < t1"
  shows "\<exists>k. bisect_start_index c t1 start_index = Inr k \<and> k < length c
             \<and> (k = 0 \<or> end_time (c ! k) < t1)"
  using assms
proof (induction c t1 start_index rule: bisect_start_index.induct)
  case (1 c t1 start_index)
  let ?new = "start_index + (length c - start_index) div 2"
  have lt: "?new < length c" using 1(2) by linarith
  show ?case
  proof (cases "end_time (c ! ?new) < t1 \<and> length c - ?new > 3")
    case True
    have "\<exists>k. bisect_start_index c t1 ?new = Inr k \<and> k < length c \<and> (k = 0 \<or> end_time (c ! k) < t1)"
      using "1.IH"[of ?new] lt True by simp
    moreover have "bisect_start_index c t1 start_index = bisect_start_index c t1 ?new"
      using lt True by (subst bisect_start_index.simps) (simp add: Let_def)
    ultimately show ?thesis by simp
  next
    case False
    have "bisect_start_index c t1 start_index = Inr start_index"
      using lt False by (subst bisect_start_index.simps) (auto simp: Let_def)
    then show ?thesis using 1(2,3) by simp
  qed
qed

lemma ends_before_later_start:
  assumes "contiguous (pre @ x # post)" "segments_valid (pre @ x # post)" "y \<in> set pre"
  shows "end_time y \<le> start_time x"
proof -
  obtain p1 p2 where pre: "pre = p1 @ y # p2" using assms(3) by (auto dest: split_list)
  have "contiguous (y # (p2 @ x # post))"
    using assms(1) contiguous_append_right[of p1 "y # (p2 @ x # post)"] pre by simp
  moreover have "segments_valid (y # (p2 @ x # post))"
    using assms(2) pre by (simp add: segments_valid_def)
  ultimately show ?thesis using starts_ge_first_end[of y "p2 @ x # post" x] by simp
qed

lemma prefix_areas_zero:
  assumes "contiguous c" "segments_valid c" "k < length c" "end_time (c ! k) < t1" "t1 < t2"
  shows "(\<Sum>s\<leftarrow>take k c. seg_area s t1 t2) = 0"
proof (rule sum_list_all_zero)
  fix s assume s: "s \<in> set (take k c)"
  have c: "c = take k c @ c ! k # drop (Suc k) c" using assms(3) by (rule id_take_nth_drop)
  have "end_time s \<le> start_time (c ! k)"
    using ends_before_later_start[of "take k c" "c ! k" "drop (Suc k) c" s] assms(1,2) c s by simp
  moreover have "start_time (c ! k) \<le> end_time (c ! k)"
    using assms(2,3) by (simp add: segments_valid_def list_all_length)
  moreover have "start_time s \<le> end_time s"
    using assms(2) s by (auto simp: segments_valid_def list_all_iff dest: in_set_takeD)
  ultimately show "seg_area s t1 t2 = 0" using assms(4,5) by (intro seg_area_after) auto
qed

lemma bisection_preserves_scan:
  assumes "contiguous c" "segments_valid c" "c \<noteq> []" "t1 < t2"
  shows "(case bisect_start_index c t1 0 of
            Inl e \<Rightarrow> Inl e
          | Inr start_index \<Rightarrow> integrate_loop (drop start_index c) t1 t2 0)
         = integrate_loop c t1 t2 0"
proof -
  obtain k where k: "bisect_start_index c t1 0 = Inr k" "k < length c" "k = 0 \<or> end_time (c ! k) < t1"
    using bisect_start_index_result[of 0 c t1] assms(3) by auto
  have split: "take k c @ drop k c = c" by simp
  have cd: "contiguous (drop k c)" using assms(1) contiguous_append_right[of "take k c" "drop k c"] by simp
  have vd: "segments_valid (drop k c)"
    using assms(2) segments_valid_append[of "take k c" "drop k c"] by simp
  have pre0: "(\<Sum>s\<leftarrow>take k c. seg_area s t1 t2) = 0"
  proof (cases "k = 0")
    case True
    then show ?thesis by simp
  next
    case False
    then show ?thesis using prefix_areas_zero[OF assms(1,2) k(2) _ assms(4)] k(3) by simp
  qed
  have "(\<Sum>s\<leftarrow>c. seg_area s t1 t2)
        = (\<Sum>s\<leftarrow>take k c. seg_area s t1 t2) + (\<Sum>s\<leftarrow>drop k c. seg_area s t1 t2)"
    by (metis map_append split sum_list.append)
  then have "(\<Sum>s\<leftarrow>drop k c. seg_area s t1 t2) = (\<Sum>s\<leftarrow>c. seg_area s t1 t2)" using pre0 by simp
  then show ?thesis
    using k(1) integrate_loop_area[OF cd vd assms(4), of 0] integrate_loop_area[OF assms(1,2,4), of 0]
    by simp
qed


lemma invariant_parts:
  assumes "curve_invariant c"
  shows "c \<noteq> []" "contiguous c" "start_time (hd c) = 0"
  using assms by (auto simp: curve_invariant_def)

lemma curve_length_last: "c \<noteq> [] \<Longrightarrow> curve_length c = end_time (last c)"
  by (simp add: curve_length_def)

lemma curve_length_nonneg:
  assumes "curve_invariant c" "segments_valid c"
  shows "0 \<le> curve_length c"
proof -
  have ne: "c \<noteq> []" using assms(1) by (rule invariant_parts)
  then have "last c \<in> set c" by simp
  then have "0 \<le> start_time (last c)" "start_time (last c) \<le> end_time (last c)"
    using starts_nonneg[OF assms] assms(2) by (auto simp: segments_valid_def list_all_iff)
  then show ?thesis using ne by (simp add: curve_length_last)
qed

lemma seg_area_diff:
  "seg_area s (start_time s) b - seg_area s (start_time s) a = seg_area s a b"
  by (simp add: seg_area_def)

lemma curve_primitive_diff_inside:
  assumes "0 \<le> t1" "t1 \<le> curve_length c" "0 \<le> t2" "t2 \<le> curve_length c"
  shows "curve_primitive c t2 - curve_primitive c t1 = (\<Sum>s\<leftarrow>c. seg_area s t1 t2)"
proof -
  have "(\<Sum>s\<leftarrow>c. seg_area s (start_time s) t2) - (\<Sum>s\<leftarrow>c. seg_area s (start_time s) t1)
        = (\<Sum>s\<leftarrow>c. seg_area s (start_time s) t2 - seg_area s (start_time s) t1)"
    by (simp add: sum_list_subtractf)
  also have "\<dots> = (\<Sum>s\<leftarrow>c. seg_area s t1 t2)" by (simp only: seg_area_diff)
  finally show ?thesis using assms by (simp add: curve_primitive_def)
qed

lemma curve_primitive_nonpos:
  assumes "curve_invariant c" "segments_valid c" "t \<le> 0"
  shows "curve_primitive c t = t * start_level (hd c)"
proof -
  have "seg_area s (start_time s) t = 0" if "s \<in> set c" for s
  proof -
    have "0 \<le> start_time s" using starts_nonneg[OF assms(1,2) that] .
    moreover have "start_time s \<le> end_time s"
      using assms(2) that by (auto simp: segments_valid_def list_all_iff)
    ultimately show ?thesis using assms(3) by (intro seg_area_before) auto
  qed
  then have "(\<Sum>s\<leftarrow>c. seg_area s (start_time s) t) = 0" by (rule sum_list_all_zero)
  then show ?thesis using assms(3) curve_length_nonneg[OF assms(1,2)]
    by (auto simp: curve_primitive_def)
qed

lemma curve_primitive_beyond:
  assumes "curve_invariant c" "segments_valid c" "curve_length c \<le> t"
  shows "curve_primitive c t
         = (t - curve_length c) * end_level (last c) + curve_primitive c (curve_length c)"
proof -
  have ne: "c \<noteq> []" and cont: "contiguous c" using assms(1) by (rule invariant_parts)+
  have L0: "0 \<le> curve_length c" using curve_length_nonneg[OF assms(1,2)] .
  have eq: "seg_area s (start_time s) t = seg_area s (start_time s) (curve_length c)" if "s \<in> set c" for s
  proof -
    have "end_time s \<le> curve_length c" using ends_le_last[OF cont assms(2) that] ne
      by (simp add: curve_length_last)
    moreover have "start_time s \<le> end_time s"
      using assms(2) that by (auto simp: segments_valid_def list_all_iff)
    ultimately show ?thesis using assms(3) by (simp add: seg_area_def clamp_above)
  qed
  have "(\<Sum>s\<leftarrow>c. seg_area s (start_time s) t)
        = (\<Sum>s\<leftarrow>c. seg_area s (start_time s) (curve_length c))"
    by (rule arg_cong[where f = sum_list], rule map_cong) (use eq in auto)
  then show ?thesis using assms(3) L0 by (simp add: curve_primitive_def)
qed

lemma integrate_interval_inside:
  assumes "curve_invariant c" "segments_valid c" "0 \<le> t1" "t1 < t2" "t2 \<le> curve_length c"
  shows "integrate_interval c t1 t2 = Inr (curve_primitive c t2 - curve_primitive c t1)"
    and "integrate_interval_full_scan c t1 t2 = Inr (curve_primitive c t2 - curve_primitive c t1)"
proof -
  have ne: "c \<noteq> []" and cont: "contiguous c" using assms(1) by (rule invariant_parts)+
  have scan: "integrate_loop c t1 t2 0 = Inr (curve_primitive c t2 - curve_primitive c t1)"
    using integrate_loop_area[OF cont assms(2,4), of 0]
      curve_primitive_diff_inside[of t1 c t2] assms(3,4,5) by simp
  have "integrate_interval c t1 t2
        = (case bisect_start_index c t1 0 of
             Inl e \<Rightarrow> Inl e
           | Inr start_index \<Rightarrow> integrate_loop (drop start_index c) t1 t2 0)"
    using assms(3,4,5) by (subst integrate_interval.simps) simp
  then show "integrate_interval c t1 t2 = Inr (curve_primitive c t2 - curve_primitive c t1)"
    using bisection_preserves_scan[OF cont assms(2) ne assms(4)] scan by simp
  show "integrate_interval_full_scan c t1 t2 = Inr (curve_primitive c t2 - curve_primitive c t1)"
    using assms(3,4,5) scan by (subst integrate_interval_full_scan.simps) simp
qed

lemma integrate_interval_closed_form:
  "curve_invariant c \<Longrightarrow> segments_valid c
     \<Longrightarrow> integrate_interval c t1 t2 = Inr (curve_primitive c t2 - curve_primitive c t1)"
proof (induction c t1 t2 rule: integrate_interval.induct)
  case (1 c t1 t2)
  note inv = "1.prems"(1) and val = "1.prems"(2)
  have ne: "c \<noteq> []" using inv by (rule invariant_parts)
  have sl: "curve_start_level c = Inr (start_level (hd c))"
    using ne by (cases c) (simp_all add: curve_start_level_def)
  have el: "curve_end_level c = Inr (end_level (last c))" using ne by (simp add: curve_end_level_def)
  have L0: "0 \<le> curve_length c" using curve_length_nonneg[OF inv val] .
  consider (same) "t1 = t2" | (swap) "t2 < t1" | (low) "t1 < t2" "t1 < 0"
    | (high) "t1 < t2" "0 \<le> t1" "curve_length c < t2"
    | (inside) "t1 < t2" "0 \<le> t1" "t2 \<le> curve_length c"
    by linarith
  then show ?case
  proof cases
    case same
    then show ?thesis by (subst integrate_interval.simps) simp
  next
    case swap
    have "integrate_interval c t2 t1 = Inr (curve_primitive c t1 - curve_primitive c t2)"
      using "1.IH"(1)[OF _ swap inv val] swap by simp
    then show ?thesis using swap by (subst integrate_interval.simps) simp
  next
    case low
    have "integrate_interval c 0 t2 = Inr (curve_primitive c t2 - curve_primitive c 0)"
      using "1.IH"(2)[OF _ _ low(2) sl inv val] low by simp
    moreover have "curve_primitive c 0 = 0" using curve_primitive_nonpos[OF inv val, of 0] by simp
    moreover have "curve_primitive c t1 = t1 * start_level (hd c)"
      using curve_primitive_nonpos[OF inv val, of t1] low(2) by simp
    ultimately show ?thesis using low sl by (subst integrate_interval.simps) simp
  next
    case high
    have "integrate_interval c t1 (curve_length c)
          = Inr (curve_primitive c (curve_length c) - curve_primitive c t1)"
      using "1.IH"(3)[OF _ _ _ high(3) el inv val] high by simp
    moreover have "curve_primitive c t2
          = (t2 - curve_length c) * end_level (last c) + curve_primitive c (curve_length c)"
      using curve_primitive_beyond[OF inv val, of t2] high(3) by simp
    ultimately show ?thesis using high el by (subst integrate_interval.simps) simp
  next
    case inside
    then show ?thesis using integrate_interval_inside(1)[OF inv val] by simp
  qed
qed

lemma integrate_interval_full_scan_closed_form:
  "curve_invariant c \<Longrightarrow> segments_valid c
     \<Longrightarrow> integrate_interval_full_scan c t1 t2 = Inr (curve_primitive c t2 - curve_primitive c t1)"
proof (induction c t1 t2 rule: integrate_interval_full_scan.induct)
  case (1 c t1 t2)
  note inv = "1.prems"(1) and val = "1.prems"(2)
  have ne: "c \<noteq> []" using inv by (rule invariant_parts)
  have sl: "curve_start_level c = Inr (start_level (hd c))"
    using ne by (cases c) (simp_all add: curve_start_level_def)
  have el: "curve_end_level c = Inr (end_level (last c))" using ne by (simp add: curve_end_level_def)
  have L0: "0 \<le> curve_length c" using curve_length_nonneg[OF inv val] .
  consider (same) "t1 = t2" | (swap) "t2 < t1" | (low) "t1 < t2" "t1 < 0"
    | (high) "t1 < t2" "0 \<le> t1" "curve_length c < t2"
    | (inside) "t1 < t2" "0 \<le> t1" "t2 \<le> curve_length c"
    by linarith
  then show ?case
  proof cases
    case same
    then show ?thesis by (subst integrate_interval_full_scan.simps) simp
  next
    case swap
    have "integrate_interval_full_scan c t2 t1 = Inr (curve_primitive c t1 - curve_primitive c t2)"
      using "1.IH"(1)[OF _ swap inv val] swap by simp
    then show ?thesis using swap by (subst integrate_interval_full_scan.simps) simp
  next
    case low
    have "integrate_interval_full_scan c 0 t2 = Inr (curve_primitive c t2 - curve_primitive c 0)"
      using "1.IH"(2)[OF _ _ low(2) sl inv val] low by simp
    moreover have "curve_primitive c 0 = 0" using curve_primitive_nonpos[OF inv val, of 0] by simp
    moreover have "curve_primitive c t1 = t1 * start_level (hd c)"
      using curve_primitive_nonpos[OF inv val, of t1] low(2) by simp
    ultimately show ?thesis using low sl by (subst integrate_interval_full_scan.simps) simp
  next
    case high
    have "integrate_interval_full_scan c t1 (curve_length c)
          = Inr (curve_primitive c (curve_length c) - curve_primitive c t1)"
      using "1.IH"(3)[OF _ _ _ high(3) el inv val] high by simp
    moreover have "curve_primitive c t2
          = (t2 - curve_length c) * end_level (last c) + curve_primitive c (curve_length c)"
      using curve_primitive_beyond[OF inv val, of t2] high(3) by simp
    ultimately show ?thesis using high el by (subst integrate_interval_full_scan.simps) simp
  next
    case inside
    then show ?thesis using integrate_interval_inside(2)[OF inv val] by simp
  qed
qed


subsection \<open>Mutations keep the invariant\<close>

lemma contiguous_append:
  "contiguous (xs @ ys) \<longleftrightarrow>
     contiguous xs \<and> contiguous ys \<and> (xs \<noteq> [] \<and> ys \<noteq> [] \<longrightarrow> end_time (last xs) = start_time (hd ys))"
proof (induction xs rule: contiguous.induct)
  case 1
  then show ?case by simp
next
  case (2 s)
  then show ?case by (cases ys) auto
next
  case (3 s s' ss)
  then show ?case by auto
qed

lemma contiguous_Cons:
  "contiguous (x # xs) \<longleftrightarrow> contiguous xs \<and> (xs \<noteq> [] \<longrightarrow> end_time x = start_time (hd xs))"
  by (cases xs) auto

lemma sorted_starts:
  "contiguous c \<Longrightarrow> segments_valid c \<Longrightarrow> sorted (map start_time c)"
proof (induction c)
  case Nil
  then show ?case by simp
next
  case (Cons s rest)
  have "start_time s \<le> start_time y" if "y \<in> set rest" for y
    using starts_ge_first_end[OF Cons.prems that] Cons.prems(2) by (simp add: segments_valid_Cons)
  moreover have "sorted (map start_time rest)"
    using Cons.IH Cons.prems by (simp add: contiguous_Cons segments_valid_Cons)
  ultimately show ?case by auto
qed

lemma well_formed_iff:
  "well_formed c \<longleftrightarrow> c \<noteq> [] \<and> contiguous c \<and> segments_valid c \<and> start_time (hd c) = 0"
  using sorted_starts[of c] by (auto simp: well_formed_def curve_invariant_def)

lemma butlast_snoc_parts:
  assumes "c \<noteq> []"
  shows "c = butlast c @ [last c]"
  using assms by simp

lemma well_formed_set_last:
  assumes "well_formed c" "start_time x = start_time (last c)" "start_time x \<le> end_time x"
  shows "well_formed (set_last c x)"
proof -
  have wf: "c \<noteq> []" "contiguous c" "segments_valid c" "start_time (hd c) = 0"
    using assms(1) by (simp_all add: well_formed_iff)
  have c: "c = butlast c @ [last c]" using wf(1) by simp
  have cb: "contiguous (butlast c)"
    and link: "butlast c \<noteq> [] \<longrightarrow> end_time (last (butlast c)) = start_time (last c)"
    using wf(2) contiguous_append[of "butlast c" "[last c]"] c by auto
  have vb: "segments_valid (butlast c)"
    using wf(3) segments_valid_append[of "butlast c" "[last c]"] c by auto
  have "contiguous (butlast c @ [x])" using cb link assms(2) by (simp add: contiguous_append)
  moreover have "segments_valid (butlast c @ [x])"
    using vb assms(3) by (simp add: segments_valid_append segments_valid_Cons segments_valid_def)
  moreover have "start_time (hd (butlast c @ [x])) = 0"
  proof (cases "butlast c = []")
    case True
    then have "c = [last c]" using c by simp
    then have "hd c = last c" by (metis list.sel(1))
    then show ?thesis using True assms(2) wf(4) by simp
  next
    case False
    then have "hd (butlast c @ [x]) = hd c" using c by (metis hd_append2)
    then show ?thesis using wf(4) by simp
  qed
  ultimately show ?thesis by (simp add: well_formed_iff set_last_def)
qed

lemma well_formed_snoc:
  assumes "well_formed c" "start_time x = end_time (last c)" "start_time x \<le> end_time x"
  shows "well_formed (c @ [x])"
proof -
  have wf: "c \<noteq> []" "contiguous c" "segments_valid c" "start_time (hd c) = 0"
    using assms(1) by (simp_all add: well_formed_iff)
  have "contiguous (c @ [x])" using wf(1,2) assms(2) by (simp add: contiguous_append)
  moreover have "segments_valid (c @ [x])"
    using wf(3) assms(3) by (simp add: segments_valid_append segments_valid_Cons segments_valid_def)
  moreover have "start_time (hd (c @ [x])) = 0" using wf(1,4) by simp
  ultimately show ?thesis by (simp add: well_formed_iff)
qed

lemma last_valid:
  assumes "well_formed c"
  shows "start_time (last c) \<le> end_time (last c)"
  using assms by (auto simp: well_formed_iff segments_valid_def list_all_iff)

lemma seg_value_at_unclipped_total:
  "end_time seg - start_time seg \<noteq> 0 \<Longrightarrow> \<exists>v. seg_value_at seg t False = Inr v"
  by (simp add: seg_value_at_def Let_def)

lemma append_segment_well_formed:
  assumes "well_formed c" "0 \<le> dur"
  shows "\<exists>c'. append_segment c level dur shape tolerance = Inr c' \<and> well_formed c'"
proof -
  have ne: "c \<noteq> []" using assms(1) by (simp add: well_formed_iff)
  have L: "curve_length c = end_time (last c)" using ne by (simp add: curve_length_def)
  have lv: "start_time (last c) \<le> end_time (last c)" using last_valid[OF assms(1)] .
  let ?new = "ParameterCurveSegment (curve_length c) (curve_length c + dur) (end_level (last c)) level shape"
  have app: "well_formed (c @ [?new])"
    using assms L by (intro well_formed_snoc) (simp_all add: ParameterCurveSegment_def)
  have upd: "well_formed (set_last c x)"
    if "start_time x = start_time (last c)" "end_time x = end_time (last c) \<or> end_time x = curve_length c + dur" for x
    using that assms L lv by (intro well_formed_set_last) auto
  show ?thesis
  proof (cases "duration (last c) = 0")
    case True
    then show ?thesis using ne app upd
      by (auto simp: append_segment_def Let_def)
  next
    case False
    then have d: "end_time (last c) - start_time (last c) \<noteq> 0" by (simp add: duration_def)
    obtain v where v: "seg_value_at (last c) (curve_length c + dur) False = Inr v"
      using seg_value_at_unclipped_total[OF d] by blast
    show ?thesis using ne False app upd v
      by (auto simp: append_segment_def Let_def)
  qed
qed

lemma curve_invariant_snoc:
  assumes "well_formed c" "start_time x = end_time (last c)"
  shows "curve_invariant (c @ [x])"
proof -
  have wf: "c \<noteq> []" "contiguous c" "segments_valid c" "start_time (hd c) = 0"
    using assms(1) by (simp_all add: well_formed_iff)
  have srt: "sorted (map start_time c)" using wf(2,3) by (rule sorted_starts)
  have le: "start_time s \<le> start_time x" if "s \<in> set c" for s
  proof -
    have "start_time s \<le> end_time s"
      using wf(3) that by (simp add: segments_valid_def list_all_iff)
    moreover have "end_time s \<le> end_time (last c)" using ends_le_last[OF wf(2,3)] that by blast
    ultimately show ?thesis using assms(2) by simp
  qed
  have "sorted (map start_time (c @ [x]))" using srt le by (simp add: sorted_append)
  moreover have "contiguous (c @ [x])" using wf(1,2) assms(2) by (simp add: contiguous_append)
  moreover have "start_time (hd (c @ [x])) = 0" using wf(1,4) by simp
  ultimately show ?thesis by (simp add: curve_invariant_def)
qed

lemma curve_invariant_set_last:
  assumes "well_formed c" "start_time x = start_time (last c)"
  shows "curve_invariant (set_last c x)"
proof -
  have wf: "c \<noteq> []" "contiguous c" "segments_valid c" "start_time (hd c) = 0"
    using assms(1) by (simp_all add: well_formed_iff)
  have srt: "sorted (map start_time c)" using wf(2,3) by (rule sorted_starts)
  have c: "c = butlast c @ [last c]" using wf(1) by simp
  have "map start_time (butlast c @ [x]) = map start_time (butlast c @ [last c])"
    using assms(2) by simp
  then have m: "map start_time (butlast c @ [x]) = map start_time c" using c by simp
  have cb: "contiguous (butlast c)"
    and link: "butlast c \<noteq> [] \<longrightarrow> end_time (last (butlast c)) = start_time (last c)"
    using wf(2) contiguous_append[of "butlast c" "[last c]"] c by auto
  have "contiguous (butlast c @ [x])" using cb link assms(2) by (simp add: contiguous_append)
  moreover have "sorted (map start_time (butlast c @ [x]))" using srt m by simp
  moreover have "start_time (hd (butlast c @ [x])) = 0"
  proof (cases "butlast c = []")
    case True
    then have "c = [last c]" using c by simp
    then have "hd c = last c" by (metis list.sel(1))
    then show ?thesis using True assms(2) wf(4) by simp
  next
    case False
    then have "hd (butlast c @ [x]) = hd c" using c by (metis hd_append2)
    then show ?thesis using wf(4) by simp
  qed
  ultimately show ?thesis by (simp add: curve_invariant_def set_last_def)
qed

lemma append_segment_curve_invariant:
  assumes "well_formed c"
  shows "\<exists>c'. append_segment c level dur shape tolerance = Inr c' \<and> curve_invariant c'"
proof -
  have ne: "c \<noteq> []" using assms(1) by (simp add: well_formed_iff)
  have L: "curve_length c = end_time (last c)" using ne by (simp add: curve_length_def)
  let ?new = "ParameterCurveSegment (curve_length c) (curve_length c + dur) (end_level (last c)) level shape"
  have app: "curve_invariant (c @ [?new])"
    using assms L by (intro curve_invariant_snoc) (simp_all add: ParameterCurveSegment_def)
  have upd: "curve_invariant (set_last c x)" if "start_time x = start_time (last c)" for x
    using that assms by (intro curve_invariant_set_last)
  show ?thesis
  proof (cases "duration (last c) = 0")
    case True
    then show ?thesis using ne app upd
      by (auto simp: append_segment_def Let_def)
  next
    case False
    then have d: "end_time (last c) - start_time (last c) \<noteq> 0" by (simp add: duration_def)
    obtain v where v: "seg_value_at (last c) (curve_length c + dur) False = Inr v"
      using seg_value_at_unclipped_total[OF d] by blast
    show ?thesis using ne False app upd v
      by (auto simp: append_segment_def Let_def)
  qed
qed

lemma pop_segment_well_formed:
  assumes "well_formed c" "pop_segment c = Inr (r, c')"
  shows "well_formed c'"
proof (cases "length c = 1")
  case True
  then obtain s0 where c: "c = [s0]" by (cases c) auto
  then have "start_time s0 = 0" using assms(1) by (simp add: well_formed_iff)
  then show ?thesis using assms(2) c
    by (auto simp: pop_segment_def Let_def well_formed_iff segments_valid_def split: if_splits)
next
  case False
  have wf: "c \<noteq> []" "contiguous c" "segments_valid c" "start_time (hd c) = 0"
    using assms(1) by (simp_all add: well_formed_iff)
  have c': "c' = butlast c" using assms(2) False wf(1) by (simp add: pop_segment_def)
  have c: "c = butlast c @ [last c]" using wf(1) by simp
  have bne: "butlast c \<noteq> []" using False wf(1) by (cases c) auto
  have "contiguous (butlast c)" using wf(2) contiguous_append[of "butlast c" "[last c]"] c by auto
  moreover have "segments_valid (butlast c)"
    using wf(3) segments_valid_append[of "butlast c" "[last c]"] c by auto
  moreover have "hd (butlast c) = hd c" using bne c by (metis hd_append2)
  ultimately show ?thesis using c' bne wf(4) by (simp add: well_formed_iff)
qed

lemma insert_loop_Nil_iff: "insert_loop c t level cin cout = [] \<longleftrightarrow> c = []"
  by (cases c) (auto simp: Let_def)

lemma insert_loop_hd:
  "c \<noteq> [] \<Longrightarrow> start_time (hd (insert_loop c t level cin cout)) = start_time (hd c)"
  by (cases c) (auto simp: Let_def)

lemma insert_loop_contiguous:
  "contiguous c \<Longrightarrow> segments_valid c
     \<Longrightarrow> contiguous (insert_loop c t level cin cout) \<and> segments_valid (insert_loop c t level cin cout)"
proof (induction c)
  case Nil
  then show ?case by simp
next
  case (Cons seg rest)
  have cr: "contiguous rest" and vr: "segments_valid rest" and v: "start_time seg \<le> end_time seg"
    and link: "rest \<noteq> [] \<longrightarrow> end_time seg = start_time (hd rest)"
    using Cons.prems by (simp_all add: contiguous_Cons segments_valid_Cons)
  note IH = Cons.IH[OF cr vr]
  show ?case
  proof (cases "start_time seg < t \<and> t < end_time seg")
    case True
    then show ?thesis using cr vr link
      by (simp add: contiguous_Cons segments_valid_Cons ParameterCurveSegment_def)
  next
    case False
    have "rest \<noteq> [] \<longrightarrow> start_time (hd (insert_loop rest t level cin cout)) = start_time (hd rest)"
      using insert_loop_hd by blast
    then show ?thesis using False IH link v
      by (auto simp: contiguous_Cons segments_valid_Cons Let_def insert_loop_Nil_iff)
  qed
qed

lemma curve_insert_well_formed:
  assumes "well_formed c" "0 \<le> t"
  shows "\<exists>c'. curve_insert c t level cin cout = Inr c' \<and> well_formed c'"
proof (cases "t > curve_length c")
  case True
  then show ?thesis
    using append_segment_well_formed[OF assms(1), of "t - curve_length c" level cin 0] assms(2)
    by (simp add: curve_insert_def)
next
  case False
  have wf: "c \<noteq> []" "contiguous c" "segments_valid c" "start_time (hd c) = 0"
    using assms(1) by (simp_all add: well_formed_iff)
  have "well_formed (insert_loop c t level cin cout)"
    using insert_loop_contiguous[OF wf(2,3)] insert_loop_hd[OF wf(1)] wf(1,4)
    by (simp add: well_formed_iff insert_loop_Nil_iff)
  then show ?thesis using False assms(2) by (simp add: curve_insert_def)
qed

lemma split_at_parts:
  assumes "start_time seg < t" "t < end_time seg"
  shows "\<exists>p1 p2. split_at seg t = Inr (p1, p2)
           \<and> start_time p1 = start_time seg \<and> end_time p1 = t
           \<and> start_time p2 = t \<and> end_time p2 = end_time seg
           \<and> start_level p1 = start_level seg \<and> end_level p2 = end_level seg
           \<and> seg_value_at seg t True = Inr (end_level p1) \<and> start_level p2 = end_level p1
           \<and> curve_shape p1 = (t - start_time seg) / (end_time seg - start_time seg) * curve_shape seg
           \<and> curve_shape p2 = curve_shape seg - curve_shape p1"
proof -
  obtain m where m: "seg_value_at seg t True = Inr m" by (simp add: seg_value_at_progress)
  show ?thesis using assms m by (simp add: split_at_def Let_def ParameterCurveSegment_def)
qed

lemma split_step_eq:
  "i < length c \<Longrightarrow> take (i + 1) (c[i := x]) @ y # drop (i + 1) c = take i c @ x # y # drop (Suc i) c"
  by (simp add: take_Suc_conv_app_nth)

lemma well_formed_replace_by_two:
  assumes "well_formed (pre @ x # post)"
    and "start_time p1 = start_time x" "end_time p1 = start_time p2" "end_time p2 = end_time x"
    and "start_time p1 \<le> end_time p1" "start_time p2 \<le> end_time p2"
  shows "well_formed (pre @ p1 # p2 # post)"
proof -
  have "start_time (hd (pre @ p1 # p2 # post)) = start_time (hd (pre @ x # post))"
    using assms(2) by (cases pre) simp_all
  then show ?thesis using assms
    by (auto simp: well_formed_iff contiguous_append contiguous_Cons segments_valid_append
        segments_valid_Cons)
qed

lemma insert_interpolated_loop_well_formed:
  "well_formed c \<Longrightarrow> \<exists>c'. insert_interpolated_loop c t i = Inr c' \<and> well_formed c'"
proof (induction c t i rule: insert_interpolated_loop.induct)
  case (1 c t i)
  show ?case
  proof (cases "i \<ge> length c \<or> t = start_time (c ! i)")
    case True
    then show ?thesis using "1.prems" by (subst insert_interpolated_loop.simps) auto
  next
    case False
    then have i: "i < length c" and ns: "t \<noteq> start_time (c ! i)" by auto
    show ?thesis
    proof (cases "contains (c ! i) t")
      case True
      then have st: "start_time (c ! i) < t" "t < end_time (c ! i)" using ns by (auto simp: contains_def)
      obtain p1 p2 where sp: "split_at (c ! i) t = Inr (p1, p2)"
        and times: "start_time p1 = start_time (c ! i)" "end_time p1 = t"
          "start_time p2 = t" "end_time p2 = end_time (c ! i)"
        using split_at_parts[OF st] by blast
      let ?c' = "take (i + 1) (c[i := fst (p1, p2)]) @ snd (p1, p2) # drop (i + 1) c"
      have c: "c = take i c @ c ! i # drop (Suc i) c" using i by (rule id_take_nth_drop)
      have "well_formed (take i c @ p1 # p2 # drop (Suc i) c)"
        using "1.prems" c times st by (intro well_formed_replace_by_two[where x = "c ! i"]) auto
      then have wf': "well_formed ?c'" using split_step_eq[OF i] by simp
      have "\<exists>c'. insert_interpolated_loop ?c' t (i + 1) = Inr c' \<and> well_formed c'"
        using "1.IH"(1)[OF _ _ True sp wf'] i ns by simp
      moreover have "insert_interpolated_loop c t i = insert_interpolated_loop ?c' t (i + 1)"
        using i ns True sp by (subst insert_interpolated_loop.simps) simp
      ultimately show ?thesis by simp
    next
      case False
      have "\<exists>c'. insert_interpolated_loop c t (i + 1) = Inr c' \<and> well_formed c'"
        using "1.IH"(2)[OF _ _ False "1.prems"] i ns by simp
      moreover have "insert_interpolated_loop c t i = insert_interpolated_loop c t (i + 1)"
        using i ns False by (subst insert_interpolated_loop.simps) simp
      ultimately show ?thesis by simp
    qed
  qed
qed

lemma insert_interpolated_well_formed:
  assumes "well_formed c" "0 \<le> t" "t \<le> curve_length c"
  shows "\<exists>c'. insert_interpolated c t = Inr c' \<and> well_formed c'"
  using assms insert_interpolated_loop_well_formed[OF assms(1), of t 0]
  by (auto simp: insert_interpolated_def)

lemma pop_until_error_well_formed:
  "well_formed c \<Longrightarrow> well_formed (pop_until_error c)"
proof (induction c rule: pop_until_error.induct)
  case (1 c)
  show ?case
  proof (cases "pop_segment c")
    case (Inl e)
    then show ?thesis using "1.prems" by (subst pop_until_error.simps) simp
  next
    case (Inr res)
    have "well_formed (snd res)" using pop_segment_well_formed[OF "1.prems", of "fst res" "snd res"] Inr by simp
    then have "well_formed (pop_until_error (snd res))" using "1.IH"[OF Inr] by simp
    then show ?thesis using Inr by (subst pop_until_error.simps) simp
  qed
qed

lemma pop_segment_succeeds:
  assumes "well_formed c" "0 \<le> t" "t < curve_length c"
  shows "\<exists>res. pop_segment c = Inr res"
proof -
  have ne: "c \<noteq> []" and h0: "start_time (hd c) = 0" using assms(1) by (simp_all add: well_formed_iff)
  show ?thesis
  proof (cases "length c = 1")
    case True
    then obtain s0 where c: "c = [s0]" by (cases c) auto
    then have "end_time s0 \<noteq> start_time s0" using assms(2,3) h0 by (simp add: curve_length_def)
    then show ?thesis using c by (simp add: pop_segment_def Let_def)
  next
    case False
    then show ?thesis using ne by (simp add: pop_segment_def)
  qed
qed

lemma pop_while_longer_well_formed:
  "well_formed c \<Longrightarrow> 0 \<le> t \<Longrightarrow> \<exists>c'. pop_while_longer c t = Inr c' \<and> well_formed c'"
proof (induction c t rule: pop_while_longer.induct)
  case (1 c t)
  show ?case
  proof (cases "curve_length c > t")
    case True
    obtain res where res: "pop_segment c = Inr res"
      using pop_segment_succeeds[OF "1.prems" True] by blast
    have "well_formed (snd res)" using pop_segment_well_formed[OF "1.prems"(1), of "fst res" "snd res"] res by simp
    then have "\<exists>c'. pop_while_longer (snd res) t = Inr c' \<and> well_formed c'"
      using "1.IH"[OF True res] "1.prems"(2) by simp
    then show ?thesis using True res by (subst pop_while_longer.simps) simp
  next
    case False
    then show ?thesis using "1.prems" by (subst pop_while_longer.simps) simp
  qed
qed

lemma remove_loop_well_formed:
  assumes "well_formed c" "set segs \<subseteq> set c"
  shows "\<exists>c'. remove_loop c segs t = Inr c' \<and> well_formed c'"
  using assms(2)
proof (induction segs)
  case Nil
  then show ?case using assms(1) by simp
next
  case (Cons seg rest)
  have mem: "seg \<in> set c" using Cons.prems by simp
  have inv: "curve_invariant c" and val: "segments_valid c" and cont: "contiguous c" and ne: "c \<noteq> []"
    using assms(1) by (simp_all add: well_formed_def well_formed_iff[symmetric] curve_invariant_def)
  have s0: "0 \<le> start_time seg" using starts_nonneg[OF inv val mem] .
  show ?case
  proof (cases "t = start_time seg")
    case True
    then show ?thesis using pop_while_longer_well_formed[OF assms(1), of t] s0 by simp
  next
    case False
    note ns = this
    show ?thesis
    proof (cases "start_time seg < t \<and> t < end_time seg")
      case True
      have "end_time seg \<le> curve_length c"
        using ends_le_last[OF cont val mem] ne by (simp add: curve_length_def)
      then obtain c1 where c1: "insert_interpolated c t = Inr c1" "well_formed c1"
        using insert_interpolated_well_formed[OF assms(1), of t] True s0 by auto
      show ?thesis using pop_while_longer_well_formed[OF c1(2), of t] c1(1) True ns s0 by simp
    next
      case False
      have "\<exists>c'. remove_loop c rest t = Inr c' \<and> well_formed c'"
        using Cons.IH Cons.prems by simp
      moreover have "remove_loop c (seg # rest) t = remove_loop c rest t"
        using False ns by auto
      ultimately show ?thesis by simp
    qed
  qed
qed

lemma remove_segments_after_well_formed:
  assumes "well_formed c"
  shows "\<exists>c'. remove_segments_after c t = Inr c' \<and> well_formed c'"
proof -
  let ?c1 = "if t < 0 then pop_until_error c else c"
  have "well_formed ?c1" using assms pop_until_error_well_formed by simp
  then show ?thesis using remove_loop_well_formed[of ?c1 ?c1 t]
    by (simp add: remove_segments_after_def Let_def)
qed


subsection \<open>Splitting a segment and the values of its halves\<close>

lemma scaled_shape_small:
  fixes u S :: real
  assumes "0 < u" "u < 1" "\<bar>S\<bar> < 0.000001"
  shows "\<bar>u * S\<bar> < 0.000001"
proof -
  have "\<bar>u * S\<bar> = u * \<bar>S\<bar>" using assms(1) by (simp only: abs_mult abs_of_pos)
  also have "\<dots> \<le> 1 * \<bar>S\<bar>" using assms(1,2) by (intro mult_right_mono) simp_all
  finally show ?thesis using assms(3) by simp
qed

lemma first_half_value:
  assumes st: "start_time seg < t" "t < end_time seg"
    and sp: "split_at seg t = Inr (p1, p2)"
    and ok: "\<bar>curve_shape seg\<bar> < 0.000001
             \<or> \<bar>(t - start_time seg) / (end_time seg - start_time seg) * curve_shape seg\<bar> \<ge> 0.000001"
    and x: "x \<le> t"
  shows "seg_value_at p1 x True = seg_value_at seg x True"
proof -
  let ?s = "start_time seg" and ?e = "end_time seg" and ?S = "curve_shape seg"
  let ?k = "end_level seg - start_level seg"
  define u where "u = (t - ?s) / (?e - ?s)"
  have d: "0 < ?e - ?s" and dt: "0 < t - ?s" using st by simp_all
  have u01: "0 < u" "u < 1" using st by (simp_all add: u_def)
  obtain m where m: "seg_value_at seg t True = Inr m" by (simp add: seg_value_at_progress)
  have p1: "p1 = seg\<lparr>end_time := t, end_level := m, curve_shape := u * ?S\<rparr>"
    using sp st m by (simp add: split_at_def Let_def u_def)
  show ?thesis
  proof (cases "x \<le> ?s")
    case True
    then show ?thesis using st p1 by (simp add: seg_value_at_def)
  next
    case False
    note xs = this
    show ?thesis
    proof (cases "x = t")
      case True
      then show ?thesis using st p1 m by (simp add: seg_value_at_def)
    next
      case False
      then have xt: "x < t" using x by simp
      define v where "v = (x - ?s) / (t - ?s)"
      define w where "w = (x - ?s) / (?e - ?s)"
      have nx: "v * u = w" using dt d by (simp add: u_def v_def w_def)
      show ?thesis
      proof (cases "\<bar>?S\<bar> < 0.000001")
        case True
        have small: "\<bar>u * ?S\<bar> < 0.000001" using scaled_shape_small[OF u01 True] .
        have mv: "m = start_level seg + u * ?k"
          using m st True by (simp add: seg_value_at_def Let_def u_def)
        have "seg_value_at p1 x True = Inr (start_level seg + v * (m - start_level seg))"
          using p1 xs xt small dt by (simp add: seg_value_at_def Let_def v_def)
        also have "\<dots> = Inr (start_level seg + (v * u) * ?k)"
          unfolding mv by (simp add: algebra_simps)
        also have "\<dots> = Inr (start_level seg + w * ?k)"
          by (simp only: nx)
        also have "\<dots> = seg_value_at seg x True"
          using xs xt st True by (simp add: seg_value_at_def Let_def w_def)
        finally show ?thesis .
      next
        case False
        then have big: "\<not> \<bar>u * ?S\<bar> < 0.000001" using ok by (simp add: u_def)
        then have "u * ?S \<noteq> 0" by auto
        then have ne1: "exp (u * ?S) - 1 \<noteq> 0" by simp
        have mv: "m = start_level seg + ?k / (exp ?S - 1) * (exp (?S * u) - 1)"
          using m st False by (simp add: seg_value_at_def Let_def u_def)
        have ex: "u * ?S * v = ?S * w"
          using nx by (simp add: mult.commute mult.left_commute)
        have quot: "(m - start_level seg) / (exp (u * ?S) - 1) = ?k / (exp ?S - 1)"
          using mv ne1 by (simp add: mult.commute)
        have "seg_value_at p1 x True
              = Inr (start_level seg + (m - start_level seg) / (exp (u * ?S) - 1)
                       * (exp (u * ?S * v) - 1))"
          using p1 xs xt big dt by (simp add: seg_value_at_def Let_def v_def)
        also have "\<dots> = Inr (start_level seg + ?k / (exp ?S - 1) * (exp (?S * w) - 1))"
          by (simp only: quot ex)
        also have "\<dots> = seg_value_at seg x True"
          using xs xt st False by (simp add: seg_value_at_def Let_def w_def)
        finally show ?thesis .
      qed
    qed
  qed
qed

lemma second_half_algebra:
  fixes a b g k sl :: real
  assumes "b - 1 \<noteq> 0" "a * b - 1 \<noteq> 0"
  shows "(sl + k / (a * b - 1) * (a - 1))
           + ((sl + k) - (sl + k / (a * b - 1) * (a - 1))) / (b - 1) * (g - 1)
         = sl + k / (a * b - 1) * (a * g - 1)"
proof -
  define c where "c = k / (a * b - 1)"
  have k: "k = c * (a * b - 1)" using assms(2) by (simp add: c_def)
  have "(sl + k) - (sl + c * (a - 1)) = (c * a) * (b - 1)"
    unfolding k by (simp add: algebra_simps)
  then have "((sl + k) - (sl + c * (a - 1))) / (b - 1) = c * a"
    using assms(1) by simp
  then have "(sl + c * (a - 1)) + ((sl + k) - (sl + c * (a - 1))) / (b - 1) * (g - 1)
             = (sl + c * (a - 1)) + c * a * (g - 1)"
    by simp
  also have "\<dots> = sl + c * (a * g - 1)" by (simp add: algebra_simps)
  finally show ?thesis unfolding c_def .
qed

lemma second_half_value:
  assumes st: "start_time seg < t" "t < end_time seg"
    and sp: "split_at seg t = Inr (p1, p2)"
    and ok: "\<bar>curve_shape seg\<bar> < 0.000001
             \<or> \<bar>curve_shape seg
                 - (t - start_time seg) / (end_time seg - start_time seg) * curve_shape seg\<bar> \<ge> 0.000001"
    and x: "t \<le> x"
  shows "seg_value_at p2 x True = seg_value_at seg x True"
proof -
  let ?s = "start_time seg" and ?e = "end_time seg" and ?S = "curve_shape seg"
  let ?k = "end_level seg - start_level seg"
  define u where "u = (t - ?s) / (?e - ?s)"
  have d: "0 < ?e - ?s" and dt: "0 < ?e - t" using st by simp_all
  have u01: "0 < u" "u < 1" using st by (simp_all add: u_def)
  obtain m where m: "seg_value_at seg t True = Inr m" by (simp add: seg_value_at_progress)
  have p2: "p2 = \<lparr>start_time = t, end_time = ?e, start_level = m, end_level = end_level seg,
                 curve_shape = ?S - u * ?S\<rparr>"
    using sp st m by (simp add: split_at_def Let_def u_def ParameterCurveSegment_def)
  have S2: "?S - u * ?S = (1 - u) * ?S" by (simp add: algebra_simps)
  show ?thesis
  proof (cases "?e \<le> x")
    case True
    then show ?thesis using p2 by (simp add: seg_value_at_def)
  next
    case False
    note xe = this
    show ?thesis
    proof (cases "x = t")
      case True
      then show ?thesis using st p2 m by (simp add: seg_value_at_def)
    next
      case False
      then have xt: "t < x" using x by simp
      define v where "v = (x - t) / (?e - t)"
      define w where "w = (x - ?s) / (?e - ?s)"
      have one_u: "1 - u = (?e - t) / (?e - ?s)" using d by (simp add: u_def field_simps)
      have "v * (1 - u) = (x - t) / (?e - ?s)" unfolding one_u v_def using dt by simp
      moreover have "w - u = (x - t) / (?e - ?s)"
        unfolding w_def u_def by (simp add: diff_divide_distrib[symmetric])
      ultimately have nx: "v * (1 - u) = w - u" by simp
      show ?thesis
      proof (cases "\<bar>?S\<bar> < 0.000001")
        case True
        have "0 < 1 - u" "1 - u < 1" using u01 by simp_all
        then have small: "\<bar>?S - u * ?S\<bar> < 0.000001"
          using scaled_shape_small[of "1 - u" ?S] True unfolding S2 by simp
        have mv: "m = start_level seg + u * ?k"
          using m st True by (simp add: seg_value_at_def Let_def u_def)
        have "seg_value_at p2 x True = Inr (m + v * (end_level seg - m))"
          using p2 xe xt small dt by (simp add: seg_value_at_def Let_def v_def)
        also have "\<dots> = Inr (start_level seg + (u + v * (1 - u)) * ?k)"
          unfolding mv by (simp add: algebra_simps)
        also have "\<dots> = Inr (start_level seg + w * ?k)"
          by (simp only: nx) simp
        also have "\<dots> = seg_value_at seg x True"
          using xe xt st True by (simp add: seg_value_at_def Let_def w_def)
        finally show ?thesis .
      next
        case False
        then have big: "\<not> \<bar>?S - u * ?S\<bar> < 0.000001" using ok by (simp add: u_def)
        define a where "a = exp (u * ?S)"
        define b where "b = exp (?S - u * ?S)"
        define g where "g = exp ((?S - u * ?S) * v)"
        have "?S - u * ?S \<noteq> 0" using big by auto
        then have b1: "b - 1 \<noteq> 0" by (simp add: b_def)
        have "?S \<noteq> 0" using False by auto
        then have E1: "exp ?S - 1 \<noteq> 0" by simp
        have ab: "exp ?S = a * b" unfolding a_def b_def by (simp add: exp_add[symmetric])
        have ag: "exp (?S * w) = a * g"
        proof -
          have weq: "w = u + v * (1 - u)" using nx by simp
          have "?S * w = u * ?S + (?S - u * ?S) * v"
            unfolding weq by (simp add: algebra_simps)
          then show ?thesis unfolding a_def g_def by (simp add: exp_add[symmetric])
        qed
        have mv: "m = start_level seg + ?k / (a * b - 1) * (a - 1)"
          using m st False ab by (simp add: seg_value_at_def Let_def u_def a_def mult.commute)
        have E1': "a * b - 1 \<noteq> 0" using E1 ab by simp
        have "seg_value_at p2 x True = Inr (m + (end_level seg - m) / (b - 1) * (g - 1))"
          using p2 xe xt big dt by (simp add: seg_value_at_def Let_def v_def b_def g_def)
        also have "m + (end_level seg - m) / (b - 1) * (g - 1)
                   = start_level seg + ?k / (a * b - 1) * (a * g - 1)"
          unfolding mv using second_half_algebra[OF b1 E1', of "start_level seg" ?k g] by simp
        also have "Inr (start_level seg + ?k / (a * b - 1) * (a * g - 1)) = seg_value_at seg x True"
          using xe xt st False ab ag by (simp add: seg_value_at_def Let_def w_def)
        finally show ?thesis .
      qed
    qed
  qed
qed

lemma find_append_cases:
  "find P (xs @ ys) = (case find P xs of None \<Rightarrow> find P ys | Some x \<Rightarrow> Some x)"
  by (induction xs) auto

lemma curve_value_at_replace:
  assumes st: "start_time seg < t" "t < end_time seg"
    and times: "start_time p1 = start_time seg" "end_time p1 = t"
      "start_time p2 = t" "end_time p2 = end_time seg"
    and levels: "start_level p1 = start_level seg" "end_level p2 = end_level seg"
    and v1: "\<And>y. y \<le> t \<Longrightarrow> seg_value_at p1 y True = seg_value_at seg y True"
    and v2: "\<And>y. t \<le> y \<Longrightarrow> seg_value_at p2 y True = seg_value_at seg y True"
  shows "curve_value_at (pre @ p1 # p2 # post) x = curve_value_at (pre @ seg # post) x"
proof (cases "x < 0")
  case True
  then show ?thesis using levels(1) by (cases pre) (simp_all add: curve_value_at_def curve_start_level_def)
next
  case False
  have ends: "curve_end_level (pre @ p1 # p2 # post) = curve_end_level (pre @ seg # post)"
    using levels(2) by (simp add: curve_end_level_def)
  show ?thesis
  proof (cases "find (\<lambda>s. contains s x) (rev post)")
    case (Some s')
    then show ?thesis using False by (simp add: curve_value_at_def find_append_cases)
  next
    case None
    consider (in2) "t \<le> x" "x < end_time seg" | (in1) "start_time seg \<le> x" "x < t"
      | (out) "x < start_time seg \<or> end_time seg \<le> x"
      by linarith
    then show ?thesis
    proof cases
      case in2
      then have "contains p2 x" "contains seg x" using times st by (simp_all add: contains_def)
      then show ?thesis using False None v2[OF in2(1)]
        by (simp add: curve_value_at_def find_append_cases)
    next
      case in1
      then have "\<not> contains p2 x" "contains p1 x" "contains seg x"
        using times st by (simp_all add: contains_def)
      then show ?thesis using False None v1[of x] in1(2)
        by (simp add: curve_value_at_def find_append_cases)
    next
      case out
      then have "\<not> contains p2 x" "\<not> contains p1 x" "\<not> contains seg x"
        using times st by (auto simp: contains_def)
      then show ?thesis using False None ends
        by (auto simp: curve_value_at_def find_append_cases split: option.split)
    qed
  qed
qed

lemma insert_interpolated_loop_values:
  "insert_interpolated_loop c t i = Inr c'
     \<Longrightarrow> (\<forall>seg\<in>set c. start_time seg < t \<and> t < end_time seg \<longrightarrow> split_keeps_formula seg t)
     \<Longrightarrow> curve_value_at c' x = curve_value_at c x"
proof (induction c t i arbitrary: c' rule: insert_interpolated_loop.induct)
  case (1 c t i)
  show ?case
  proof (cases "i \<ge> length c \<or> t = start_time (c ! i)")
    case True
    then have "insert_interpolated_loop c t i = Inr c"
      by (subst insert_interpolated_loop.simps) auto
    then show ?thesis using "1.prems"(1) by simp
  next
    case False
    then have i: "i < length c" and ns: "t \<noteq> start_time (c ! i)" by auto
    show ?thesis
    proof (cases "contains (c ! i) t")
      case True
      then have st: "start_time (c ! i) < t" "t < end_time (c ! i)" using ns by (auto simp: contains_def)
      obtain p1 p2 where sp: "split_at (c ! i) t = Inr (p1, p2)"
        and times: "start_time p1 = start_time (c ! i)" "end_time p1 = t"
          "start_time p2 = t" "end_time p2 = end_time (c ! i)"
        and levels: "start_level p1 = start_level (c ! i)" "end_level p2 = end_level (c ! i)"
        using split_at_parts[OF st] by blast
      have keeps: "split_keeps_formula (c ! i) t" using "1.prems"(2) i st by simp
      let ?c' = "take (i + 1) (c[i := fst (p1, p2)]) @ snd (p1, p2) # drop (i + 1) c"
      have c: "c = take i c @ c ! i # drop (Suc i) c" using i by (rule id_take_nth_drop)
      have c'': "?c' = take i c @ p1 # p2 # drop (Suc i) c" using split_step_eq[OF i] by simp
      have step: "insert_interpolated_loop c t i = insert_interpolated_loop ?c' t (i + 1)"
        using i ns True sp by (subst insert_interpolated_loop.simps) simp
      have cond': "\<forall>seg\<in>set ?c'. start_time seg < t \<and> t < end_time seg \<longrightarrow> split_keeps_formula seg t"
      proof
        fix s assume "s \<in> set ?c'"
        then have "s \<in> set (take i c) \<or> s = p1 \<or> s = p2 \<or> s \<in> set (drop (Suc i) c)"
          unfolding c'' by auto
        then have "s \<in> set c \<or> s = p1 \<or> s = p2"
          by (auto dest: in_set_takeD in_set_dropD)
        then show "start_time s < t \<and> t < end_time s \<longrightarrow> split_keeps_formula s t"
          using "1.prems"(2) times by auto
      qed
      have "curve_value_at c' x = curve_value_at ?c' x"
        using "1.IH"(1)[OF _ _ True sp _ cond'] "1.prems"(1) step i ns by simp
      also have "\<dots> = curve_value_at (take i c @ p1 # p2 # drop (Suc i) c) x"
        by (simp only: c'')
      also have "\<dots> = curve_value_at (take i c @ c ! i # drop (Suc i) c) x"
      proof (rule curve_value_at_replace[OF st times levels])
        fix y assume "y \<le> t"
        then show "seg_value_at p1 y True = seg_value_at (c ! i) y True"
          using first_half_value[OF st sp] keeps by (auto simp: split_keeps_formula_def)
      next
        fix y assume "t \<le> y"
        then show "seg_value_at p2 y True = seg_value_at (c ! i) y True"
          using second_half_value[OF st sp] keeps by (auto simp: split_keeps_formula_def)
      qed
      also have "\<dots> = curve_value_at c x" using c by simp
      finally show ?thesis .
    next
      case False
      have step: "insert_interpolated_loop c t i = insert_interpolated_loop c t (i + 1)"
        using i ns False by (subst insert_interpolated_loop.simps) simp
      show ?thesis
        using "1.IH"(2)[OF _ _ False _ "1.prems"(2)] "1.prems"(1) step i ns by simp
    qed
  qed
qed

lemma insert_interpolated_loop_total:
  "\<exists>c'. insert_interpolated_loop c t i = Inr c'"
proof (induction c t i rule: insert_interpolated_loop.induct)
  case (1 c t i)
  show ?case
  proof (cases "i \<ge> length c \<or> t = start_time (c ! i)")
    case True
    then show ?thesis by (subst insert_interpolated_loop.simps) auto
  next
    case False
    then have i: "i < length c" and ns: "t \<noteq> start_time (c ! i)" by auto
    show ?thesis
    proof (cases "contains (c ! i) t")
      case True
      then have st: "start_time (c ! i) < t" "t < end_time (c ! i)" using ns by (auto simp: contains_def)
      obtain p1 p2 where sp: "split_at (c ! i) t = Inr (p1, p2)"
        using split_at_parts[OF st] by blast
      show ?thesis using "1.IH"(1)[OF _ _ True sp] i ns True sp
        by (subst insert_interpolated_loop.simps) simp
    next
      case False
      show ?thesis using "1.IH"(2)[OF _ _ False] i ns False
        by (subst insert_interpolated_loop.simps) simp
    qed
  qed
qed


subsection \<open>A split that drops one half below the linearity threshold\<close>

lemma half_step_differs:
  fixes x :: real
  assumes "x \<noteq> 0"
  shows "1 / 2 * ((exp (2 * x) - 1) / (exp 1 - 1)) \<noteq> (exp x - 1) / (exp 1 - 1)"
proof
  assume eq: "1 / 2 * ((exp (2 * x) - 1) / (exp 1 - 1)) = (exp x - 1) / (exp 1 - 1)"
  define q where "q = exp x"
  have e1: "exp (1::real) - 1 \<noteq> 0" by simp
  have q2: "exp (2 * x) = q * q" unfolding q_def by (simp add: exp_add[symmetric])
  have "(1 / 2 * (exp (2 * x) - 1)) / (exp 1 - 1) = (exp x - 1) / (exp 1 - 1)"
    using eq by (simp only: times_divide_eq_right)
  then have "1 / 2 * (exp (2 * x) - 1) = exp x - 1"
    using e1 by (simp only: divide_cancel_right simp_thms)
  then have "1 / 2 * (q * q - 1) = q - 1"
    unfolding q2 q_def[symmetric] .
  then have "2 * (1 / 2 * (q * q - 1)) = 2 * (q - 1)" by (rule arg_cong)
  then have "q * q - 1 = 2 * (q - 1)" by simp
  then have "(q - 1) * (q - 1) = 0" by (simp add: algebra_simps)
  then have "q = 1" by simp
  then show False using assms by (simp add: q_def)
qed

lemma steep_segment_split:
  fixes x :: real
  assumes "0 < x" "2 * x < 0.000001"
  shows "split_at (ParameterCurveSegment 0 1 0 1 1) (2 * x)
         = Inr (\<lparr>start_time = 0, end_time = 2 * x, start_level = 0,
                  end_level = (exp (2 * x) - 1) / (exp 1 - 1), curve_shape = 2 * x\<rparr>,
                \<lparr>start_time = 2 * x, end_time = 1, start_level = (exp (2 * x) - 1) / (exp 1 - 1),
                  end_level = 1, curve_shape = 1 - 2 * x\<rparr>)"
  using assms by (simp add: split_at_def seg_value_at_def ParameterCurveSegment_def Let_def)

lemma steep_segment_first_half:
  fixes x :: real
  assumes "0 < x" "2 * x < 0.000001"
  shows "seg_value_at \<lparr>start_time = 0, end_time = 2 * x, start_level = 0,
                  end_level = (exp (2 * x) - 1) / (exp 1 - 1), curve_shape = 2 * x\<rparr> x True
         = Inr (1 / 2 * ((exp (2 * x) - 1) / (exp 1 - 1)))"
  using assms by (simp add: seg_value_at_def Let_def)

lemma steep_segment_value:
  fixes x :: real
  assumes "0 < x" "2 * x < 0.000001"
  shows "seg_value_at (ParameterCurveSegment 0 1 0 1 1) x True = Inr ((exp x - 1) / (exp 1 - 1))"
  using assms by (simp add: seg_value_at_def ParameterCurveSegment_def Let_def)

lemma steep_curve_insert:
  fixes x :: real
  assumes "0 < x" "2 * x < 0.000001"
  shows "insert_interpolated [ParameterCurveSegment 0 1 0 1 1] (2 * x)
         = Inr [\<lparr>start_time = 0, end_time = 2 * x, start_level = 0,
                  end_level = (exp (2 * x) - 1) / (exp 1 - 1), curve_shape = 2 * x\<rparr>,
                \<lparr>start_time = 2 * x, end_time = 1, start_level = (exp (2 * x) - 1) / (exp 1 - 1),
                  end_level = 1, curve_shape = 1 - 2 * x\<rparr>]"
proof -
  have c: "contains (ParameterCurveSegment 0 1 0 1 1) (2 * x)"
    using assms by (simp add: contains_def ParameterCurveSegment_def)
  have s: "start_time (ParameterCurveSegment 0 1 0 1 1) = 0"
    by (simp add: ParameterCurveSegment_def)
  have "insert_interpolated_loop [ParameterCurveSegment 0 1 0 1 1] (2 * x) 0
        = insert_interpolated_loop [\<lparr>start_time = 0, end_time = 2 * x, start_level = 0,
                  end_level = (exp (2 * x) - 1) / (exp 1 - 1), curve_shape = 2 * x\<rparr>,
                \<lparr>start_time = 2 * x, end_time = 1, start_level = (exp (2 * x) - 1) / (exp 1 - 1),
                  end_level = 1, curve_shape = 1 - 2 * x\<rparr>] (2 * x) 1"
    using assms c s steep_segment_split[OF assms]
    by (subst insert_interpolated_loop.simps) simp
  also have "\<dots> = Inr [\<lparr>start_time = 0, end_time = 2 * x, start_level = 0,
                  end_level = (exp (2 * x) - 1) / (exp 1 - 1), curve_shape = 2 * x\<rparr>,
                \<lparr>start_time = 2 * x, end_time = 1, start_level = (exp (2 * x) - 1) / (exp 1 - 1),
                  end_level = 1, curve_shape = 1 - 2 * x\<rparr>]"
    by (subst insert_interpolated_loop.simps) simp
  finally show ?thesis using assms
    by (simp add: insert_interpolated_def curve_length_def ParameterCurveSegment_def)
qed


subsection \<open>Decoding the compact form rebuilds the curve\<close>

lemma numbers_map_JNum: "numbers (map JNum xs) = Inr xs"
  by (induction xs) auto

lemma level_continuous_Cons:
  "level_continuous (x # xs) \<longleftrightarrow> level_continuous xs \<and> (xs \<noteq> [] \<longrightarrow> end_level x = start_level (hd xs))"
  by (cases xs) auto

lemma segment_rebuilt:
  "ParameterCurveSegment (start_time s) (start_time s + duration s) (start_level s) (end_level s)
     (curve_shape s) = s"
  by (cases s) (simp add: ParameterCurveSegment_def duration_def)

lemma construct_segments_list_rebuilds:
  assumes "c \<noteq> []" "contiguous c" "level_continuous c"
  shows "construct_segments_list (map start_level c @ [end_level (last c)]) (map duration c)
           (map curve_shape c) (start_time (hd c)) = Inr c"
  using assms
proof (induction c)
  case Nil
  then show ?case by simp
next
  case (Cons s rest)
  show ?case
  proof (cases rest)
    case Nil
    then show ?thesis by (simp add: segment_rebuilt)
  next
    case (Cons s' rest')
    have cr: "contiguous rest" and lr: "level_continuous rest"
      and link: "end_time s = start_time s'" and lv: "end_level s = start_level s'"
      using Cons.prems Cons by simp_all
    have IH: "construct_segments_list (map start_level rest @ [end_level (last rest)]) (map duration rest)
           (map curve_shape rest) (start_time (hd rest)) = Inr rest"
      using Cons.IH cr lr Cons by simp
    have t: "start_time s + duration s = start_time s'" using link by (simp add: duration_def)
    have seg: "ParameterCurveSegment (start_time s) (start_time s') (start_level s) (start_level s')
                 (curve_shape s) = s"
      using segment_rebuilt[of s] t lv by simp
    show ?thesis using IH Cons t seg by simp
  qed
qed

lemma durations_telescope:
  assumes "c \<noteq> []" "contiguous c"
  shows "sum_list (map duration c) = end_time (last c) - start_time (hd c)"
  using assms
proof (induction c)
  case Nil
  then show ?case by simp
next
  case (Cons s rest)
  show ?case
  proof (cases rest)
    case Nil
    then show ?thesis by (simp add: duration_def)
  next
    case (Cons s' rest')
    then have IH: "sum_list (map duration rest) = end_time (last rest) - start_time (hd rest)"
      using Cons.IH Cons.prems by simp
    have link: "end_time s = start_time (hd rest)" using Cons.prems Cons by simp
    have ds: "duration s = end_time s - start_time s" by (simp add: duration_def)
    have "sum_list (map duration (s # rest)) = duration s + sum_list (map duration rest)" by simp
    also have "\<dots> = end_time (last rest) - start_time s" unfolding IH ds using link by simp
    finally show ?thesis using Cons by simp
  qed
qed

lemma all_equal_replicate:
  "list_all (\<lambda>x. x = d) xs \<Longrightarrow> xs = replicate (length xs) d"
  by (induction xs) auto

lemma sum_list_replicate_real: "sum_list (replicate n (d::real)) = real n * d"
  by (induction n) (simp_all add: algebra_simps)

lemma even_durations_value:
  assumes "well_formed c" "list_all (\<lambda>x. x = durations c ! 0) (durations c)"
  shows "durations c = replicate (length c) (curve_length c / real (length c))"
proof -
  have wf: "c \<noteq> []" "contiguous c" "start_time (hd c) = 0"
    using assms(1) by (simp_all add: well_formed_iff)
  let ?d = "durations c ! 0"
  have rep: "durations c = replicate (length c) ?d"
    using all_equal_replicate[OF assms(2)] by (simp add: durations_def)
  have "curve_length c = sum_list (durations c)"
    using durations_telescope[OF wf(1,2)] wf by (simp add: curve_length_def durations_def)
  also have "\<dots> = real (length c) * ?d" by (subst rep) (simp add: sum_list_replicate_real)
  finally have "curve_length c / real (length c) = ?d" using wf(1) by simp
  then show ?thesis using rep by simp
qed

lemma from_levels_and_durations_rebuilds:
  assumes "well_formed c" "level_continuous c"
  shows "from_levels_and_durations (map start_level c @ [end_level (last c)]) (map duration c)
           (Some (map curve_shape c)) = Inr c"
proof -
  have wf: "c \<noteq> []" "contiguous c" "start_time (hd c) = 0"
    using assms(1) by (simp_all add: well_formed_iff)
  have "length c \<noteq> 0" using wf(1) by simp
  then show ?thesis
    using construct_segments_list_rebuilds[OF wf(1,2) assms(2)] wf(3)
    by (simp add: from_levels_and_durations_def initialize_def)
qed

lemma linear_shapes:
  "list_all (\<lambda>x. x = 0) (curve_shapes c) \<Longrightarrow> map curve_shape c = replicate (length c) 0"
  using all_equal_replicate[of 0 "curve_shapes c"] by (simp add: curve_shapes_def)

lemma round_trip_identity:
  assumes "well_formed c" "level_continuous c"
  shows "\<exists>j. to_json c = Inr j \<and> from_json j = Inr (Some c)"
proof -
  have wf: "c \<noteq> []" "contiguous c" "start_time (hd c) = 0"
    using assms(1) by (simp_all add: well_formed_iff)
  let ?lv = "map start_level c @ [end_level (last c)]"
  have lv: "levels c = Inr ?lv" using wf(1) by (simp add: levels_def curve_end_level_def)
  have len: "length ?lv = length c + 1" by simp
  have n0: "length c \<noteq> 0" "0 < length c" using wf(1) by simp_all
  have n1: "length c + 1 \<noteq> 1" using wf(1) by simp
  have full: "from_levels_and_durations ?lv (map duration c) (Some (map curve_shape c)) = Inr c"
    using from_levels_and_durations_rebuilds[OF assms] .
  have lin: "from_levels_and_durations ?lv (map duration c) None = Inr c"
    if "list_all (\<lambda>x. x = 0) (curve_shapes c)"
    using full linear_shapes[OF that] n0
    by (simp add: from_levels_and_durations_def initialize_def)
  have even: "from_levels ?lv (curve_length c) = Inr c"
    if "list_all (\<lambda>x. x = durations c ! 0) (durations c)" "list_all (\<lambda>x. x = 0) (curve_shapes c)"
  proof -
    have "map duration c = replicate (length c) (curve_length c / real (length c))"
      using even_durations_value[OF assms(1) that(1)] by (simp add: durations_def)
    then show ?thesis using full linear_shapes[OF that(2)] n0
      by (simp add: from_levels_def)
  qed
  obtain first others where split: "?lv = first # others" by (cases ?lv) auto
  consider (bare) "list_all (\<lambda>x. x = durations c ! 0) (durations c)"
      "list_all (\<lambda>x. x = 0) (curve_shapes c)" "curve_length c = 1"
    | (total) "list_all (\<lambda>x. x = durations c ! 0) (durations c)"
      "list_all (\<lambda>x. x = 0) (curve_shapes c)" "curve_length c \<noteq> 1"
    | (durs) "\<not> list_all (\<lambda>x. x = durations c ! 0) (durations c)"
      "list_all (\<lambda>x. x = 0) (curve_shapes c)"
    | (shapes) "\<not> list_all (\<lambda>x. x = 0) (curve_shapes c)"
    by blast
  then show ?thesis
  proof cases
    case bare
    have tj: "to_json c = Inr (JArr (map JNum ?lv))" using lv bare by (simp add: to_json_def)
    have "numbers (map JNum ?lv) = Inr ?lv" by (rule numbers_map_JNum)
    then have "from_json (JArr (map JNum ?lv)) = Inr (Some c)"
      using even[OF bare(1,2)] bare(3) unfolding split
      by (simp add: from_json_def from_list_def built_def)
    then show ?thesis using tj by blast
  next
    case total
    have tj: "to_json c = Inr (JArr [JArr (map JNum ?lv), JNum (curve_length c)])"
      using lv total by (simp add: to_json_def)
    have "from_json (JArr [JArr (map JNum ?lv), JNum (curve_length c)]) = Inr (Some c)"
      using even[OF total(1,2)] numbers_map_JNum[of ?lv]
      by (simp add: from_json_def from_list_def built_def)
    then show ?thesis using tj by blast
  next
    case durs
    have tj: "to_json c = Inr (JArr [JArr (map JNum ?lv), JArr (map JNum (durations c))])"
      using lv durs by (simp add: to_json_def)
    have "from_json (JArr [JArr (map JNum ?lv), JArr (map JNum (durations c))]) = Inr (Some c)"
      using lin[OF durs(2)] numbers_map_JNum[of ?lv] numbers_map_JNum[of "durations c"]
      by (simp add: from_json_def from_list_def built_def durations_def)
    then show ?thesis using tj by blast
  next
    case shapes
    have tj: "to_json c = Inr (JArr [JArr (map JNum ?lv), JArr (map JNum (durations c)),
                              JArr (map JNum (curve_shapes c))])"
      using lv shapes by (simp add: to_json_def)
    have "from_json (JArr [JArr (map JNum ?lv), JArr (map JNum (durations c)),
                              JArr (map JNum (curve_shapes c))]) = Inr (Some c)"
      using full numbers_map_JNum[of ?lv] numbers_map_JNum[of "durations c"]
        numbers_map_JNum[of "curve_shapes c"]
      by (simp add: from_json_def from_list_def built_def durations_def curve_shapes_def)
    then show ?thesis using tj by blast
  qed
qed


subsection \<open>The maximum over a range is a checked level, and a value of a curve without jumps\<close>

lemma level_continuous_append:
  "level_continuous (xs @ ys) \<longleftrightarrow>
     level_continuous xs \<and> level_continuous ys
     \<and> (xs \<noteq> [] \<and> ys \<noteq> [] \<longrightarrow> end_level (last xs) = start_level (hd ys))"
proof (induction xs rule: level_continuous.induct)
  case 1
  then show ?case by simp
next
  case (2 s)
  then show ?case by (cases ys) auto
next
  case (3 s s' ss)
  then show ?case by auto
qed

lemma curve_max_level_range_member:
  assumes "curve_max_level c (Some (t1, t2)) = Inr m"
  shows "curve_value_at c t1 = Inr m \<or> curve_value_at c t2 = Inr m
       \<or> (\<exists>s\<in>set c. t1 \<le> start_time s \<and> start_time s \<le> t2 \<and> m = start_level s)
       \<or> (\<exists>s\<in>set c. t1 \<le> end_time s \<and> end_time s \<le> t2 \<and> m = end_level s)"
proof -
  obtain v1 v2 where v: "curve_value_at c t1 = Inr v1" "curve_value_at c t2 = Inr v2"
    and pm: "py_max ([v1, v2] @ concat (map (points_in_range t1 t2) c)) = Inr m"
    using assms by (auto simp: curve_max_level_def split: if_splits sum.splits)
  have "m \<in> set ([v1, v2] @ concat (map (points_in_range t1 t2) c))"
    using py_max_upper[of "[v1, v2] @ concat (map (points_in_range t1 t2) c)"] pm by auto
  then consider "m = v1" | "m = v2" | s where "s \<in> set c" "m \<in> set (points_in_range t1 t2 s)"
    by auto
  then show ?thesis
  proof cases
    case 1
    then show ?thesis using v by simp
  next
    case 2
    then show ?thesis using v by simp
  next
    case 3
    then have "(t1 \<le> start_time s \<and> start_time s \<le> t2 \<and> m = start_level s)
             \<or> (t1 \<le> end_time s \<and> end_time s \<le> t2 \<and> m = end_level s)"
      by (auto simp: points_in_range_def split: if_splits)
    then show ?thesis using 3(1) by blast
  qed
qed

lemma value_at_segment_start:
  assumes "curve_invariant c" "segments_valid c" "s \<in> set c" "start_time s < end_time s"
  shows "curve_value_at c (start_time s) = Inr (start_level s)"
proof -
  have cont: "contiguous c" using assms(1) by (rule invariant_parts)
  have "contains s (start_time s)" using assms(4) by (simp add: contains_def)
  then have "find (\<lambda>seg. contains seg (start_time s)) (rev c) = Some s"
    using containing_segment_unique[OF cont assms(2,3)] by blast
  moreover have "0 \<le> start_time s" using starts_nonneg[OF assms(1,2,3)] .
  ultimately show ?thesis using assms(4) by (simp add: curve_value_at_def seg_value_at_def)
qed

lemma value_at_length:
  assumes "curve_invariant c" "segments_valid c"
  shows "curve_value_at c (end_time (last c)) = Inr (end_level (last c))"
proof -
  have ne: "c \<noteq> []" and cont: "contiguous c" using assms(1) by (rule invariant_parts)+
  have "\<forall>seg\<in>set c. \<not> contains seg (end_time (last c))"
    using ends_le_last[OF cont assms(2)] by (fastforce simp: contains_def)
  then have "find (\<lambda>seg. contains seg (end_time (last c))) (rev c) = None"
    by (simp add: find_None_iff)
  moreover have "0 \<le> end_time (last c)"
    using curve_length_nonneg[OF assms] ne by (simp add: curve_length_last)
  ultimately show ?thesis using ne by (simp add: curve_value_at_def curve_end_level_def)
qed

lemma value_at_segment_end:
  assumes "curve_invariant c" "segments_valid c" "level_continuous c"
    and "\<forall>seg\<in>set c. start_time seg < end_time seg" and "s \<in> set c"
  shows "curve_value_at c (end_time s) = Inr (end_level s)"
proof -
  obtain pre post where c: "c = pre @ s # post" using assms(5) by (auto dest: split_list)
  show ?thesis
  proof (cases post)
    case Nil
    then have "last c = s" using c by simp
    then show ?thesis using value_at_length[OF assms(1,2)] by simp
  next
    case (Cons s' post')
    have cont: "contiguous c" using assms(1) by (rule invariant_parts)
    have "end_time s = start_time s'"
      using cont c Cons contiguous_append[of pre "s # s' # post'"] by simp
    moreover have "end_level s = start_level s'"
      using assms(3) c Cons level_continuous_append[of pre "s # s' # post'"] by simp
    moreover have "s' \<in> set c" using c Cons by simp
    moreover have "start_time s' < end_time s'" using assms(4) \<open>s' \<in> set c\<close> by blast
    ultimately show ?thesis
      using value_at_segment_start[OF assms(1,2), of s'] by simp
  qed
qed

lemma curve_max_level_attained:
  assumes "curve_invariant c" "segments_valid c" "level_continuous c"
    and "\<forall>seg\<in>set c. start_time seg < end_time seg"
    and "t1 < t2" and "curve_max_level c (Some (t1, t2)) = Inr m"
  shows "\<exists>x. t1 \<le> x \<and> x \<le> t2 \<and> curve_value_at c x = Inr m"
proof -
  consider (a) "curve_value_at c t1 = Inr m" | (b) "curve_value_at c t2 = Inr m"
    | (c) s where "s \<in> set c" "t1 \<le> start_time s" "start_time s \<le> t2" "m = start_level s"
    | (d) s where "s \<in> set c" "t1 \<le> end_time s" "end_time s \<le> t2" "m = end_level s"
    using curve_max_level_range_member[OF assms(6)] by blast
  then show ?thesis
  proof cases
    case a
    then show ?thesis using assms(5) by (intro exI[of _ t1]) simp
  next
    case b
    then show ?thesis using assms(5) by (intro exI[of _ t2]) simp
  next
    case c
    have "start_time s < end_time s" using assms(4) c(1) by blast
    then have "curve_value_at c (start_time s) = Inr m"
      using value_at_segment_start[OF assms(1,2) c(1)] c(4) by simp
    then show ?thesis using c(2,3) by blast
  next
    case d
    have "curve_value_at c (end_time s) = Inr m"
      using value_at_segment_end[OF assms(1,2,3,4) d(1)] d(4) by simp
    then show ?thesis using d(2,3) by blast
  qed
qed


subsection \<open>The value at time 0\<close>

lemma find_Some_split:
  "find P xs = Some x \<Longrightarrow> \<exists>pre post. xs = pre @ x # post \<and> P x \<and> (\<forall>y\<in>set pre. \<not> P y)"
proof (induction xs)
  case Nil
  then show ?case by simp
next
  case (Cons a xs)
  show ?case
  proof (cases "P a")
    case True
    then have "a = x" using Cons.prems by simp
    then show ?thesis using True by (intro exI[of _ "[]"] exI[of _ xs]) simp
  next
    case False
    then obtain pre post where "xs = pre @ x # post" "P x" "\<forall>y\<in>set pre. \<not> P y"
      using Cons by auto
    then show ?thesis using False by (intro exI[of _ "a # pre"] exI[of _ post]) simp
  qed
qed

lemma value_at_zero_level:
  assumes "curve_invariant c" "segments_valid c"
  shows "curve_value_at c 0
         = Inr (case find (\<lambda>s. 0 < end_time s) c of
                  Some s \<Rightarrow> start_level s
                | None \<Rightarrow> end_level (last c))"
proof (cases "find (\<lambda>s. 0 < end_time s) c")
  case None
  have ne: "c \<noteq> []" using assms(1) by (rule invariant_parts)
  have "\<forall>s\<in>set c. \<not> contains s 0" using None by (auto simp: find_None_iff contains_def)
  then have "find (\<lambda>s. contains s 0) (rev c) = None" by (simp add: find_None_iff)
  then show ?thesis using None ne by (simp add: curve_value_at_def curve_end_level_def)
next
  case (Some s)
  obtain pre post where c: "c = pre @ s # post" and pos: "0 < end_time s"
    and before: "\<forall>y\<in>set pre. \<not> 0 < end_time y"
    using find_Some_split[OF Some] by blast
  have cont: "contiguous c" and h0: "start_time (hd c) = 0" using assms(1) by (rule invariant_parts)+
  have start0: "start_time s \<le> 0"
  proof (cases pre rule: rev_cases)
    case Nil
    then show ?thesis using c h0 by simp
  next
    case (snoc pre' y)
    have "end_time y = start_time s"
      using cont c snoc contiguous_append[of "pre' @ [y]" "s # post"] by simp
    moreover have "\<not> 0 < end_time y" using before snoc by simp
    ultimately show ?thesis by simp
  qed
  have "s \<in> set c" using c by simp
  then have "0 \<le> start_time s" using starts_nonneg[OF assms] by blast
  then have s0: "start_time s = 0" using start0 by simp
  have "curve_value_at c (start_time s) = Inr (start_level s)"
    using value_at_segment_start[OF assms \<open>s \<in> set c\<close>] pos s0 by simp
  then show ?thesis using Some s0 by simp
qed


subsection \<open>C1: combining two segments need not terminate\<close>

text \<open>
  When the combined function has the same value at every time, the halfway value of an
  interval is never strictly between the values at its ends: the loop inserts the midpoint
  as a key point, stays at the same index and meets the same situation on the left half,
  without end. The sampling loop, which runs \<open>resolution\<close> times, finds no split point.
\<close>

lemma split_loop_constant_diverges:
  assumes const: "\<And>t. combined_value input1 input2 binary_function t = Inr k"
    and more: "i + 1 < length key_points"
  shows "split_loop input1 input2 binary_function key_points i segments = None"
proof (rule ccontr)
  assume "split_loop input1 input2 binary_function key_points i segments \<noteq> None"
  then obtain y where y: "split_loop input1 input2 binary_function key_points i segments = Some y"
    by auto
  have "\<not> ((\<forall>t. combined_value input1 input2 binary_function t = Inr k)
           \<and> i + 1 < length key_points)"
  proof (rule split_loop.raw_induct[where P = "\<lambda>a b c d e g r.
           \<not> ((\<forall>t. combined_value a b c t = Inr k) \<and> e + 1 < length d)", OF _ y], goal_cases)
    case (1 loop a b c d e g r)
    show ?case
    proof
      assume h: "(\<forall>t. combined_value a b c t = Inr k) \<and> e + 1 < length d"
      then have "loop a b c (take (e + 1) d @ ((d ! e + d ! (e + 1)) / 2) # drop (e + 1) d) e g = Some r"
        using 1(2) by (simp add: Let_def)
      then have "\<not> ((\<forall>t. combined_value a b c t = Inr k)
                    \<and> e + 1 < length (take (e + 1) d @ ((d ! e + d ! (e + 1)) / 2) # drop (e + 1) d))"
        by (rule 1(1))
      moreover have "e + 1 < length (take (e + 1) d @ ((d ! e + d ! (e + 1)) / 2) # drop (e + 1) d)"
        using h by simp linarith
      ultimately show False using h by blast
    qed
  qed
  then show False using const more by simp
qed

lemma sample_loop_constant:
  assumes const: "\<And>t. combined_value input1 input2 binary_function t = Inr k"
    and st: "split_points st = []" "last_value st = None \<or> last_value st = Some k"
      "first_difference st = None \<or> first_difference st = Some 0"
      "second_difference st = None \<or> second_difference st = Some 0"
  shows "\<exists>st'. sample_loop input1 input2 binary_function resolution xs st = Inr st'
              \<and> split_points st' = []"
  using st
proof (induction xs arbitrary: st)
  case Nil
  then show ?case by simp
next
  case (Cons x xs)
  obtain st1 where s1: "sample_step input1 input2 binary_function resolution x st = Inr st1"
    and inv: "split_points st1 = []" "last_value st1 = None \<or> last_value st1 = Some k"
      "first_difference st1 = None \<or> first_difference st1 = Some 0"
      "second_difference st1 = None \<or> second_difference st1 = Some 0"
    using Cons.prems const
    by (auto simp: sample_step_def Let_def split: option.splits)
  show ?case using Cons.IH[OF inv] s1 by simp
qed

lemma constant_combination_diverges:
  assumes "\<And>t. combined_value input1 input2 binary_function t = Inr k"
    and "start_time input2 = start_time input1" "end_time input2 = end_time input1"
  shows "split_binary_function_applied_pair input1 input2 binary_function resolution = None"
proof -
  obtain st where st: "sample_loop input1 input2 binary_function resolution [0..<resolution]
        \<lparr>split_points = [], last_value = None, first_difference = None, second_difference = None\<rparr>
        = Inr st" "split_points st = []"
    using sample_loop_constant[OF assms(1), of "\<lparr>split_points = [], last_value = None,
        first_difference = None, second_difference = None\<rparr>" resolution "[0..<resolution]"]
    by auto
  have "split_loop input1 input2 binary_function [start_time input1, end_time input1] 0 [] = None"
    by (rule split_loop_constant_diverges[OF assms(1)]) simp
  then show ?thesis using st assms(2,3)
    by (simp add: split_binary_function_applied_pair_def)
qed

text \<open>
  For contrast, a combination that does return: the sum of two linear segments from 0 to 1
  over \<open>[0, 1]\<close> is sampled 60 times without a split point, the halfway value 1 lies
  between 0 and 2, and the result is the single linear segment from 0 to 2.
\<close>

lemma sample_loop_append:
  "sample_loop input1 input2 f resolution (xs @ ys) st
   = (case sample_loop input1 input2 f resolution xs st of
        Inl e \<Rightarrow> Inl e
      | Inr st' \<Rightarrow> sample_loop input1 input2 f resolution ys st')"
  by (induction xs arbitrary: st) (auto split: sum.splits)

lemma ramp_combined_value:
  assumes "x < 60"
  shows "combined_value (ParameterCurveSegment 0 1 0 1 0) (ParameterCurveSegment 0 1 0 1 0)
           (\<lambda>a b. a + b) (real x / 60) = Inr (real x / 30)"
  using assms by (simp add: combined_value_def seg_value_at_def ParameterCurveSegment_def)

lemma ramp_sampling:
  assumes "n < 60"
  shows "sample_loop (ParameterCurveSegment 0 1 0 1 0) (ParameterCurveSegment 0 1 0 1 0)
           (\<lambda>a b. a + b) 60 [0..<Suc n]
           \<lparr>split_points = [], last_value = None, first_difference = None, second_difference = None\<rparr>
         = Inr \<lparr>split_points = [], last_value = Some (real n / 30),
                first_difference = (if 1 \<le> n then Some (1 / 30) else None),
                second_difference = (if 2 \<le> n then Some 0 else None)\<rparr>"
  using assms
proof (induction n)
  case 0
  show ?case
    using ramp_combined_value[of 0]
    by (simp add: sample_step_def duration_def ParameterCurveSegment_def)
next
  case (Suc n)
  have prev: "sample_loop (ParameterCurveSegment 0 1 0 1 0) (ParameterCurveSegment 0 1 0 1 0)
           (\<lambda>a b. a + b) 60 [0..<Suc n]
           \<lparr>split_points = [], last_value = None, first_difference = None, second_difference = None\<rparr>
         = Inr \<lparr>split_points = [], last_value = Some (real n / 30),
                first_difference = (if 1 \<le> n then Some (1 / 30) else None),
                second_difference = (if 2 \<le> n then Some 0 else None)\<rparr>"
    using Suc by simp
  have val: "combined_value (ParameterCurveSegment 0 1 0 1 0) (ParameterCurveSegment 0 1 0 1 0)
           (\<lambda>a b. a + b) (real (Suc n) / 60) = Inr (real (Suc n) / 30)"
    using ramp_combined_value[of "Suc n"] Suc.prems by simp
  have t: "start_time (ParameterCurveSegment 0 1 0 1 0)
             + real (Suc n) / real (60::nat) * duration (ParameterCurveSegment 0 1 0 1 0)
           = real (Suc n) / 60"
    by (simp add: duration_def ParameterCurveSegment_def)
  have diff: "real (Suc n) / 30 - real n / 30 = 1 / 30" by (simp add: field_simps)
  have step: "sample_step (ParameterCurveSegment 0 1 0 1 0) (ParameterCurveSegment 0 1 0 1 0)
           (\<lambda>a b. a + b) 60 (Suc n)
           \<lparr>split_points = [], last_value = Some (real n / 30),
                first_difference = (if 1 \<le> n then Some (1 / 30) else None),
                second_difference = (if 2 \<le> n then Some 0 else None)\<rparr>
         = Inr \<lparr>split_points = [], last_value = Some (real (Suc n) / 30),
                first_difference = Some (1 / 30),
                second_difference = (if 1 \<le> n then Some 0 else None)\<rparr>"
    unfolding sample_step_def t Let_def val using diff by (cases "1 \<le> n"; cases "2 \<le> n") simp_all
  have up: "[0..<Suc (Suc n)] = [0..<Suc n] @ [Suc n]" by simp
  show ?case unfolding up sample_loop_append
    using prev step by (auto simp: numeral_2_eq_2)
qed


lemma ramp_split_loop:
  "split_loop (ParameterCurveSegment 0 1 0 1 0) (ParameterCurveSegment 0 1 0 1 0) (\<lambda>a b. a + b)
     [0, 1] 0 [] = Some (Inr [ParameterCurveSegment 0 1 0 2 0])"
proof -
  have v0: "combined_value (ParameterCurveSegment 0 1 0 1 0) (ParameterCurveSegment 0 1 0 1 0)
              (\<lambda>a b. a + b) 0 = Inr 0"
    and v1: "combined_value (ParameterCurveSegment 0 1 0 1 0) (ParameterCurveSegment 0 1 0 1 0)
              (\<lambda>a b. a + b) 1 = Inr 2"
    and vh: "combined_value (ParameterCurveSegment 0 1 0 1 0) (ParameterCurveSegment 0 1 0 1 0)
              (\<lambda>a b. a + b) (1 / 2) = Inr 1"
    by (simp_all add: combined_value_def seg_value_at_def ParameterCurveSegment_def)
  have fit: "from_endpoints_and_halfway_level 0 1 0 2 1 = Inr (ParameterCurveSegment 0 1 0 2 0)"
    by (simp add: from_endpoints_and_halfway_level_def)
  have last_step: "split_loop (ParameterCurveSegment 0 1 0 1 0) (ParameterCurveSegment 0 1 0 1 0)
      (\<lambda>a b. a + b) [0, 1] 1 [ParameterCurveSegment 0 1 0 2 0]
      = Some (Inr [ParameterCurveSegment 0 1 0 2 0])"
    by (subst split_loop.simps) simp
  show ?thesis
    using last_step by (subst split_loop.simps) (simp add: v0 v1 vh fit)
qed

lemma add_linear_ramps_single_segment:
  "segment_add (ParameterCurveSegment 0 1 0 1 0) (ParameterCurveSegment 0 1 0 1 0)
   = Some (Inr (OneSegment (ParameterCurveSegment 0 1 0 2 0)))"
proof -
  have up: "[0..<60] = [0..<Suc 59]" by simp
  have "sample_loop (ParameterCurveSegment 0 1 0 1 0) (ParameterCurveSegment 0 1 0 1 0)
           (\<lambda>a b. a + b) 60 [0..<60]
           \<lparr>split_points = [], last_value = None, first_difference = None, second_difference = None\<rparr>
         = Inr \<lparr>split_points = [], last_value = Some (real 59 / 30),
                first_difference = Some (1 / 30), second_difference = Some 0\<rparr>"
    unfolding up using ramp_sampling[of 59] by simp
  then show ?thesis
    using ramp_split_loop
    by (simp add: segment_add_def split_binary_function_applied_pair_def ParameterCurveSegment_def)
qed

text \<open>
  Claim C1 says that adding two valid segments over the identical time range terminates,
  also when the combined function is constant between split points. The sum of the constant
  segment of level 1 and the constant segment of level 2 over \<open>[0, 1]\<close>, at the default
  resolution of 60, never returns.
\<close>

theorem add_constant_segments_never_returns:
  "segment_add (ParameterCurveSegment 0 1 1 1 0) (ParameterCurveSegment 0 1 2 2 0) = None"
proof -
  have "combined_value (ParameterCurveSegment 0 1 1 1 0) (ParameterCurveSegment 0 1 2 2 0)
          (\<lambda>a b. a + b) t = Inr 3" for t
    by (simp add: combined_value_def seg_value_at_def ParameterCurveSegment_def)
  then show ?thesis
    unfolding segment_add_def
    by (rule constant_combination_diverges) (simp_all add: ParameterCurveSegment_def)
qed

subsection \<open>C2: values at the two ends of a curve\<close>

text \<open>
  \<open>value_at\<close> scans the segments from the end of the list for one that contains the time,
  and a zero-length segment contains no time; \<open>start_level()\<close> reads the first segment.
  Here the curve jumps from 1 to 5 at time 0 and then rises to 7: \<open>value_at(0)\<close> is 5 and
  \<open>start_level()\<close> is 1.
\<close>

theorem value_at_zero_counterexample:
  "curve_invariant [ParameterCurveSegment 0 0 1 5 0, ParameterCurveSegment 0 1 5 7 0]
   \<and> segments_valid [ParameterCurveSegment 0 0 1 5 0, ParameterCurveSegment 0 1 5 7 0]
   \<and> curve_value_at [ParameterCurveSegment 0 0 1 5 0, ParameterCurveSegment 0 1 5 7 0] 0 = Inr 5
   \<and> curve_start_level [ParameterCurveSegment 0 0 1 5 0, ParameterCurveSegment 0 1 5 7 0] = Inr 1
   \<and> curve_value_at [ParameterCurveSegment 0 0 1 5 0, ParameterCurveSegment 0 1 5 7 0] 0
       \<noteq> curve_start_level [ParameterCurveSegment 0 0 1 5 0, ParameterCurveSegment 0 1 5 7 0]"
  by (simp add: curve_invariant_def segments_valid_def ParameterCurveSegment_def
      curve_value_at_def contains_def seg_value_at_def curve_start_level_def)

text \<open>
  Claim C2, as amended: for every curve that satisfies the structural invariant and whose
  segments are valid, \<open>value_at(length())\<close> equals \<open>end_level()\<close>, the level at the end of
  the last segment, and \<open>start_level()\<close> is the level at the start of the first segment.
  \<open>value_at(0)\<close> is the start level of the first segment that ends after time 0, or
  \<open>end_level()\<close> when every segment has zero length; none of these calls raises. So
  \<open>value_at(0)\<close> equals \<open>start_level()\<close> exactly when that level is the start level of the
  first segment, as it is whenever the first segment has positive length.
\<close>

theorem value_at_endpoints:
  assumes "curve_invariant c" and "segments_valid c"
  shows "curve_value_at c (curve_length c) = curve_end_level c
       \<and> curve_end_level c = Inr (end_level (last c))
       \<and> curve_start_level c = Inr (start_level (hd c))
       \<and> curve_value_at c 0
           = Inr (case find (\<lambda>s. 0 < end_time s) c of
                    Some s \<Rightarrow> start_level s
                  | None \<Rightarrow> end_level (last c))
       \<and> (curve_value_at c 0 = curve_start_level c
            \<longleftrightarrow> (case find (\<lambda>s. 0 < end_time s) c of
                    Some s \<Rightarrow> start_level s
                  | None \<Rightarrow> end_level (last c)) = start_level (hd c))
       \<and> (0 < end_time (hd c) \<longrightarrow> curve_value_at c 0 = curve_start_level c)"
proof -
  have ne: "c \<noteq> []" using assms(1) by (rule invariant_parts)
  have L: "curve_length c = end_time (last c)" using ne by (rule curve_length_last)
  have p1: "curve_value_at c (curve_length c) = curve_end_level c"
    using value_at_length[OF assms] ne L by (simp add: curve_end_level_def)
  have p2: "curve_end_level c = Inr (end_level (last c))" using ne by (simp add: curve_end_level_def)
  have p3: "curve_start_level c = Inr (start_level (hd c))"
    using ne by (cases c) (simp_all add: curve_start_level_def)
  note p4 = value_at_zero_level[OF assms]
  have p5: "curve_value_at c 0 = curve_start_level c
            \<longleftrightarrow> (case find (\<lambda>s. 0 < end_time s) c of
                    Some s \<Rightarrow> start_level s
                  | None \<Rightarrow> end_level (last c)) = start_level (hd c)"
    unfolding p3 p4 by simp
  have p6: "curve_value_at c 0 = curve_start_level c" if "0 < end_time (hd c)"
  proof -
    have "find (\<lambda>s. 0 < end_time s) c = Some (hd c)" using that ne by (cases c) simp_all
    then show ?thesis using p3 p4 by simp
  qed
  show ?thesis using p1 p2 p3 p4 p5 p6 by blast
qed

theorem value_at_endpoints_witness:
  "curve_value_at [ParameterCurveSegment 0 1 3 4 0, ParameterCurveSegment 1 1 4 6 0,
                   ParameterCurveSegment 1 2 6 5 0] 2 = Inr 5
   \<and> curve_value_at [ParameterCurveSegment 0 1 3 4 0, ParameterCurveSegment 1 1 4 6 0,
                   ParameterCurveSegment 1 2 6 5 0] 0 = Inr 3
   \<and> curve_value_at [ParameterCurveSegment 0 0 1 5 0, ParameterCurveSegment 0 0 5 9 0,
                   ParameterCurveSegment 0 1 9 7 0] 0 = Inr 9
   \<and> curve_value_at [ParameterCurveSegment 0 0 0 0 0] 0 = Inr 0
   \<and> curve_value_at [ParameterCurveSegment 0 0 0 0 0] 0 = curve_start_level [ParameterCurveSegment 0 0 0 0 0]"
  using value_at_endpoints[of "[ParameterCurveSegment 0 1 3 4 0, ParameterCurveSegment 1 1 4 6 0,
                   ParameterCurveSegment 1 2 6 5 0]"]
    value_at_endpoints[of "[ParameterCurveSegment 0 0 1 5 0, ParameterCurveSegment 0 0 5 9 0,
                   ParameterCurveSegment 0 1 9 7 0]"]
    value_at_endpoints[of "[ParameterCurveSegment 0 0 0 0 0]"]
  by (simp add: curve_invariant_def segments_valid_def ParameterCurveSegment_def curve_length_def
      curve_end_level_def curve_start_level_def)


subsection \<open>C3: splitting and the values of the curve\<close>

text \<open>
  A segment is evaluated linearly when the magnitude of its shape is below \<open>0.000001\<close>.
  \<open>split_at\<close> gives each half its share of the shape, and a share can fall below that
  threshold while the shape of the segment does not. The segment from level 0 to level 1
  over \<open>[0, 1]\<close> with shape 1, split at \<open>t = 2\<^sup>-\<^sup>2\<^sup>1\<close>, has a first half of shape
  \<open>2\<^sup>-\<^sup>2\<^sup>1 < 0.000001\<close>, which is linear; at \<open>x = 2\<^sup>-\<^sup>2\<^sup>2\<close> the first half has the value
  \<open>(e\<^sup>t - 1) / (2 (e - 1))\<close> and the segment had \<open>(e\<^sup>x - 1) / (e - 1)\<close>. The same holds of
  the curve of that one segment under \<open>insert_interpolated\<close>.
\<close>

theorem split_below_threshold_counterexample:
  "\<not> isl (split_at (ParameterCurveSegment 0 1 0 1 1) (1 / 2097152))
   \<and> seg_value_at (fst (projr (split_at (ParameterCurveSegment 0 1 0 1 1) (1 / 2097152)))) (1 / 4194304) True
       \<noteq> seg_value_at (ParameterCurveSegment 0 1 0 1 1) (1 / 4194304) True
   \<and> \<not> isl (insert_interpolated [ParameterCurveSegment 0 1 0 1 1] (1 / 2097152))
   \<and> curve_value_at (projr (insert_interpolated [ParameterCurveSegment 0 1 0 1 1] (1 / 2097152))) (1 / 4194304)
       \<noteq> curve_value_at [ParameterCurveSegment 0 1 0 1 1] (1 / 4194304)"
proof -
  define x :: real where "x = 1 / 4194304"
  have x: "0 < x" "2 * x < 0.000001" by (simp_all add: x_def)
  have t: "1 / 2097152 = 2 * x" by (simp add: x_def)
  let ?p1 = "\<lparr>start_time = 0, end_time = 2 * x, start_level = 0,
               end_level = (exp (2 * x) - 1) / (exp 1 - 1), curve_shape = 2 * x\<rparr>"
  let ?p2 = "\<lparr>start_time = 2 * x, end_time = 1, start_level = (exp (2 * x) - 1) / (exp 1 - 1),
               end_level = 1, curve_shape = 1 - 2 * x\<rparr>"
  have differ: "seg_value_at ?p1 x True \<noteq> seg_value_at (ParameterCurveSegment 0 1 0 1 1) x True"
    using steep_segment_first_half[OF x] steep_segment_value[OF x] half_step_differs[of x] x(1)
    by simp
  have cv1: "curve_value_at [?p1, ?p2] x = seg_value_at ?p1 x True"
    using x by (simp add: curve_value_at_def contains_def)
  have cv: "curve_value_at [ParameterCurveSegment 0 1 0 1 1] x
            = seg_value_at (ParameterCurveSegment 0 1 0 1 1) x True"
    using x by (simp add: curve_value_at_def contains_def ParameterCurveSegment_def)
  show ?thesis
    unfolding t x_def[symmetric] steep_segment_split[OF x] steep_curve_insert[OF x]
    using differ cv1 cv by simp
qed

text \<open>
  Claim C3, as amended: for every segment with \<open>start_time < t < end_time\<close>, \<open>split_at(t)\<close>
  returns two halves; the first half has the values of the segment on \<open>[start_time, t]\<close>
  when the segment is linear (\<open>\<bar>S\<bar> < 0.000001\<close>) or the first half's shape has magnitude at
  least \<open>0.000001\<close>, and the second half has the values of the segment on
  \<open>[t, end_time]\<close> under the same condition on its shape. \<open>insert_interpolated(t)\<close> with
  \<open>0 \<le> t \<le> length\<close> returns and changes \<open>value_at\<close> at no time when every segment
  that strictly contains \<open>t\<close> meets both conditions.
\<close>

theorem split_keeps_values:
  "(start_time seg < t \<and> t < end_time seg \<longrightarrow>
      (\<exists>first_half second_half. split_at seg t = Inr (first_half, second_half)
         \<and> (\<bar>curve_shape seg\<bar> < 0.000001
              \<or> \<bar>(t - start_time seg) / (end_time seg - start_time seg) * curve_shape seg\<bar> \<ge> 0.000001
            \<longrightarrow> (\<forall>x. start_time seg \<le> x \<and> x \<le> t
                   \<longrightarrow> seg_value_at first_half x True = seg_value_at seg x True))
         \<and> (\<bar>curve_shape seg\<bar> < 0.000001
              \<or> \<bar>curve_shape seg
                  - (t - start_time seg) / (end_time seg - start_time seg) * curve_shape seg\<bar> \<ge> 0.000001
            \<longrightarrow> (\<forall>x. t \<le> x \<and> x \<le> end_time seg
                   \<longrightarrow> seg_value_at second_half x True = seg_value_at seg x True))))
   \<and> (0 \<le> t \<and> t \<le> curve_length c
        \<and> (\<forall>s\<in>set c. start_time s < t \<and> t < end_time s \<longrightarrow> split_keeps_formula s t)
      \<longrightarrow> (\<exists>c'. insert_interpolated c t = Inr c' \<and> (\<forall>x. curve_value_at c' x = curve_value_at c x)))"
proof (intro conjI impI)
  assume st: "start_time seg < t \<and> t < end_time seg"
  then obtain p1 p2 where sp: "split_at seg t = Inr (p1, p2)"
    using split_at_parts[of seg t] by blast
  have a: "seg_value_at p1 x True = seg_value_at seg x True"
    if "\<bar>curve_shape seg\<bar> < 0.000001
        \<or> \<bar>(t - start_time seg) / (end_time seg - start_time seg) * curve_shape seg\<bar> \<ge> 0.000001"
      "x \<le> t" for x
    using first_half_value[OF _ _ sp that] st by simp
  have b: "seg_value_at p2 x True = seg_value_at seg x True"
    if "\<bar>curve_shape seg\<bar> < 0.000001
        \<or> \<bar>curve_shape seg
            - (t - start_time seg) / (end_time seg - start_time seg) * curve_shape seg\<bar> \<ge> 0.000001"
      "t \<le> x" for x
    using second_half_value[OF _ _ sp that] st by simp
  show "\<exists>first_half second_half. split_at seg t = Inr (first_half, second_half)
         \<and> (\<bar>curve_shape seg\<bar> < 0.000001
              \<or> \<bar>(t - start_time seg) / (end_time seg - start_time seg) * curve_shape seg\<bar> \<ge> 0.000001
            \<longrightarrow> (\<forall>x. start_time seg \<le> x \<and> x \<le> t
                   \<longrightarrow> seg_value_at first_half x True = seg_value_at seg x True))
         \<and> (\<bar>curve_shape seg\<bar> < 0.000001
              \<or> \<bar>curve_shape seg
                  - (t - start_time seg) / (end_time seg - start_time seg) * curve_shape seg\<bar> \<ge> 0.000001
            \<longrightarrow> (\<forall>x. t \<le> x \<and> x \<le> end_time seg
                   \<longrightarrow> seg_value_at second_half x True = seg_value_at seg x True))"
    using sp a b by blast
next
  assume h: "0 \<le> t \<and> t \<le> curve_length c
        \<and> (\<forall>s\<in>set c. start_time s < t \<and> t < end_time s \<longrightarrow> split_keeps_formula s t)"
  show "\<exists>c'. insert_interpolated c t = Inr c' \<and> (\<forall>x. curve_value_at c' x = curve_value_at c x)"
  proof (cases "t = curve_length c")
    case True
    then show ?thesis using h by (simp add: insert_interpolated_def)
  next
    case False
    obtain c' where c': "insert_interpolated_loop c t 0 = Inr c'"
      using insert_interpolated_loop_total by blast
    have "\<forall>x. curve_value_at c' x = curve_value_at c x"
      using insert_interpolated_loop_values[OF c'] h by blast
    then show ?thesis using c' h False by (simp add: insert_interpolated_def)
  qed
qed

lemma bend_split:
  "split_at (ParameterCurveSegment 0 2 1 4 2) 1
   = Inr (\<lparr>start_time = 0, end_time = 1, start_level = 1,
            end_level = 1 + 3 / (exp 2 - 1) * (exp 1 - 1), curve_shape = 1\<rparr>,
          \<lparr>start_time = 1, end_time = 2, start_level = 1 + 3 / (exp 2 - 1) * (exp 1 - 1),
            end_level = 4, curve_shape = 1\<rparr>)"
  by (simp add: split_at_def seg_value_at_def ParameterCurveSegment_def Let_def)

theorem split_keeps_values_witness:
  "seg_value_at \<lparr>start_time = 0, end_time = 1, start_level = 1,
            end_level = 1 + 3 / (exp 2 - 1) * (exp 1 - 1), curve_shape = 1\<rparr> (1/2) True
     = seg_value_at (ParameterCurveSegment 0 2 1 4 2) (1/2) True
   \<and> seg_value_at \<lparr>start_time = 1, end_time = 2, start_level = 1 + 3 / (exp 2 - 1) * (exp 1 - 1),
            end_level = 4, curve_shape = 1\<rparr> (3/2) True
     = seg_value_at (ParameterCurveSegment 0 2 1 4 2) (3/2) True
   \<and> (\<exists>c'. insert_interpolated [ParameterCurveSegment 0 2 1 4 2] 1 = Inr c'
          \<and> curve_value_at c' (1/2) = curve_value_at [ParameterCurveSegment 0 2 1 4 2] (1/2))"
proof -
  note w = split_keeps_values[of "ParameterCurveSegment 0 2 1 4 2" 1 "[ParameterCurveSegment 0 2 1 4 2]"]
  have seg_part: "\<exists>first_half second_half.
      split_at (ParameterCurveSegment 0 2 1 4 2) 1 = Inr (first_half, second_half)
      \<and> (\<forall>x. 0 \<le> x \<and> x \<le> 1
            \<longrightarrow> seg_value_at first_half x True = seg_value_at (ParameterCurveSegment 0 2 1 4 2) x True)
      \<and> (\<forall>x. 1 \<le> x \<and> x \<le> 2
            \<longrightarrow> seg_value_at second_half x True = seg_value_at (ParameterCurveSegment 0 2 1 4 2) x True)"
    using w[THEN conjunct1] by (simp add: ParameterCurveSegment_def)
  have curve_part: "\<exists>c'. insert_interpolated [ParameterCurveSegment 0 2 1 4 2] 1 = Inr c'
      \<and> (\<forall>x. curve_value_at c' x = curve_value_at [ParameterCurveSegment 0 2 1 4 2] x)"
    using w[THEN conjunct2]
    by (simp add: ParameterCurveSegment_def curve_length_def split_keeps_formula_def)
  show ?thesis using seg_part curve_part unfolding bend_split by auto
qed


subsection \<open>C4: the round trip through the compact form\<close>

text \<open>
  The compact form holds one level per segment boundary: the start level of every segment
  and the end level of the last one. A curve whose adjacent segments do not share the level
  at their boundary satisfies the structural invariant, and its end levels but the last are
  not serialized. The curve below goes from 0 to 1 on \<open>[0, 1]\<close> and from 5 to 6 on
  \<open>[1, 2]\<close>; it is encoded as \<open>[(0, 5, 6), 2]\<close> and decoded to a curve that goes from 0
  to 5 on \<open>[0, 1]\<close>: at time \<open>1/2\<close> the value is \<open>5/2\<close> instead of \<open>1/2\<close>.
\<close>

theorem level_jump_round_trip_counterexample:
  "curve_invariant [ParameterCurveSegment 0 1 0 1 0, ParameterCurveSegment 1 2 5 6 0]
   \<and> segments_valid [ParameterCurveSegment 0 1 0 1 0, ParameterCurveSegment 1 2 5 6 0]
   \<and> to_json [ParameterCurveSegment 0 1 0 1 0, ParameterCurveSegment 1 2 5 6 0]
       = Inr (JArr [JArr [JNum 0, JNum 5, JNum 6], JNum 2])
   \<and> from_json (JArr [JArr [JNum 0, JNum 5, JNum 6], JNum 2])
       = Inr (Some [ParameterCurveSegment 0 1 0 5 0, ParameterCurveSegment 1 2 5 6 0])
   \<and> curve_value_at [ParameterCurveSegment 0 1 0 5 0, ParameterCurveSegment 1 2 5 6 0] (1/2) = Inr (5/2)
   \<and> curve_value_at [ParameterCurveSegment 0 1 0 1 0, ParameterCurveSegment 1 2 5 6 0] (1/2) = Inr (1/2)"
  by (simp add: curve_invariant_def segments_valid_def to_json_def levels_def durations_def
      curve_shapes_def curve_end_level_def curve_length_def duration_def from_json_def from_list_def
      from_levels_def from_levels_and_durations_def initialize_def built_def
      curve_value_at_def contains_def seg_value_at_def ParameterCurveSegment_def Let_def)

text \<open>
  Claim C4, as amended: for every curve that satisfies the invariant, whose segments are
  valid and whose adjacent segments share the level at their boundary, \<open>to_json\<close> returns
  one of its four encodings, \<open>from_json\<close> decodes it to a curve, and that curve has the
  value of the original at every time.
\<close>

theorem serialization_round_trip:
  assumes "curve_invariant c" and "segments_valid c" and "level_continuous c"
  shows "\<exists>j c'. to_json c = Inr j \<and> from_json j = Inr (Some c')
               \<and> (\<forall>x. curve_value_at c' x = curve_value_at c x)"
proof -
  have "well_formed c" using assms(1,2) by (simp add: well_formed_def)
  then obtain j where "to_json c = Inr j" "from_json j = Inr (Some c)"
    using round_trip_identity[OF _ assms(3)] by blast
  then show ?thesis by blast
qed

lemma bent_to_json:
  "to_json [ParameterCurveSegment 0 1 1 2 0, ParameterCurveSegment 1 3 2 5 (1/2)]
   = Inr (JArr [JArr [JNum 1, JNum 2, JNum 5], JArr [JNum 1, JNum 2], JArr [JNum 0, JNum (1/2)]])"
  by (simp add: to_json_def levels_def durations_def curve_shapes_def curve_end_level_def
      curve_length_def duration_def ParameterCurveSegment_def Let_def)

theorem serialization_round_trip_witness:
  "to_json [ParameterCurveSegment 0 1 1 2 0, ParameterCurveSegment 1 3 2 5 (1/2)]
     = Inr (JArr [JArr [JNum 1, JNum 2, JNum 5], JArr [JNum 1, JNum 2], JArr [JNum 0, JNum (1/2)]])
   \<and> (\<exists>c'. from_json (JArr [JArr [JNum 1, JNum 2, JNum 5], JArr [JNum 1, JNum 2],
                              JArr [JNum 0, JNum (1/2)]]) = Inr (Some c')
          \<and> curve_value_at c' 2
              = curve_value_at [ParameterCurveSegment 0 1 1 2 0, ParameterCurveSegment 1 3 2 5 (1/2)] 2)"
proof -
  have "curve_invariant [ParameterCurveSegment 0 1 1 2 0, ParameterCurveSegment 1 3 2 5 (1/2)]"
    "segments_valid [ParameterCurveSegment 0 1 1 2 0, ParameterCurveSegment 1 3 2 5 (1/2)]"
    "level_continuous [ParameterCurveSegment 0 1 1 2 0, ParameterCurveSegment 1 3 2 5 (1/2)]"
    by (simp_all add: curve_invariant_def segments_valid_def ParameterCurveSegment_def)
  from serialization_round_trip[OF this]
  obtain j c' where j: "to_json [ParameterCurveSegment 0 1 1 2 0, ParameterCurveSegment 1 3 2 5 (1/2)] = Inr j"
    "from_json j = Inr (Some c')"
    "\<forall>x. curve_value_at c' x
         = curve_value_at [ParameterCurveSegment 0 1 1 2 0, ParameterCurveSegment 1 3 2 5 (1/2)] x"
    by blast
  have "j = JArr [JArr [JNum 1, JNum 2, JNum 5], JArr [JNum 1, JNum 2], JArr [JNum 0, JNum (1/2)]]"
    using j(1) bent_to_json by simp
  then show ?thesis using j bent_to_json by blast
qed


subsection \<open>C5: the public mutations keep the invariant\<close>

text \<open>
  Claim C5: for every curve that satisfies the invariant (the segment list is non-empty,
  sorted by \<open>start_time\<close>, each segment ends where the next one starts, the first segment
  starts at 0), its segments being segments of the data model (\<open>start_time \<le> end_time\<close>),
  the invariant holds again after \<open>insert(t, level, ...)\<close> with \<open>t \<ge> 0\<close>, after
  \<open>insert_interpolated(t)\<close> with \<open>0 \<le> t \<le> length\<close>, after
  \<open>append_segment(level, duration, shape, tolerance)\<close> for every duration, after
  \<open>pop_segment()\<close> when it does not raise, and after \<open>remove_segments_after(t)\<close>; of these
  only \<open>pop_segment\<close> can raise. The segments of the result are segments of the data model
  again, for \<open>append_segment\<close> when the duration is not negative.
\<close>

theorem mutations_keep_invariant:
  assumes "curve_invariant c" and "segments_valid c"
  shows "(0 \<le> t \<longrightarrow>
           (\<exists>c'. curve_insert c t level curve_shape_in curve_shape_out = Inr c'
                \<and> curve_invariant c' \<and> segments_valid c'))
       \<and> (0 \<le> t \<and> t \<le> curve_length c \<longrightarrow>
           (\<exists>c'. insert_interpolated c t = Inr c' \<and> curve_invariant c' \<and> segments_valid c'))
       \<and> (\<exists>c'. append_segment c level dur shape tolerance = Inr c'
                \<and> curve_invariant c' \<and> (0 \<le> dur \<longrightarrow> segments_valid c'))
       \<and> (\<forall>r c'. pop_segment c = Inr (r, c') \<longrightarrow> curve_invariant c' \<and> segments_valid c')
       \<and> (\<exists>c'. remove_segments_after c t = Inr c' \<and> curve_invariant c' \<and> segments_valid c')"
proof -
  have wf: "well_formed c" using assms by (simp add: well_formed_def)
  obtain c' where a1: "append_segment c level dur shape tolerance = Inr c'" and a2: "curve_invariant c'"
    using append_segment_curve_invariant[OF wf, of level dur shape tolerance] by blast
  have a3: "segments_valid c'" if "0 \<le> dur"
    using append_segment_well_formed[OF wf that, of level shape tolerance] a1
    by (auto simp: well_formed_def)
  have app: "\<exists>c'. append_segment c level dur shape tolerance = Inr c'
                \<and> curve_invariant c' \<and> (0 \<le> dur \<longrightarrow> segments_valid c')"
    using a1 a2 a3 by blast
  show ?thesis
    using curve_insert_well_formed[OF wf, of t level curve_shape_in curve_shape_out]
      insert_interpolated_well_formed[OF wf, of t]
      app
      pop_segment_well_formed[OF wf]
      remove_segments_after_well_formed[OF wf, of t]
    unfolding well_formed_def by blast
qed

lemma ramp_mutations:
  "curve_insert [ParameterCurveSegment 0 2 0 1 0] 1 5 0 0
     = Inr [ParameterCurveSegment 0 1 0 5 0, ParameterCurveSegment 1 2 5 1 0]"
  "insert_interpolated [ParameterCurveSegment 0 2 0 1 0] 1
     = Inr [ParameterCurveSegment 0 1 0 (1/2) 0, ParameterCurveSegment 1 2 (1/2) 1 0]"
  "append_segment [ParameterCurveSegment 0 2 0 1 0] 3 1 0 0
     = Inr [ParameterCurveSegment 0 2 0 1 0, ParameterCurveSegment 2 3 1 3 0]"
  "pop_segment [ParameterCurveSegment 0 2 0 1 0] = Inr (None, [ParameterCurveSegment 0 0 0 0 0])"
  "remove_segments_after [ParameterCurveSegment 0 2 0 1 0] 1 = Inr [ParameterCurveSegment 0 1 0 (1/2) 0]"
  "append_segment [ParameterCurveSegment 0 2 0 1 0] 3 (- 1) 1 0
     = Inr [ParameterCurveSegment 0 2 0 1 0, ParameterCurveSegment 2 1 1 3 1]"
  by (simp_all add: curve_insert_def insert_interpolated_def insert_interpolated_loop.simps
      append_segment_def pop_segment_def remove_segments_after_def pop_while_longer.simps
      split_at_def seg_value_at_def contains_def set_last_def
      curve_length_def duration_def ParameterCurveSegment_def Let_def)

theorem mutations_keep_invariant_witness:
  "(\<exists>c'. curve_insert [ParameterCurveSegment 0 2 0 1 0] 1 5 0 0 = Inr c'
         \<and> curve_invariant c' \<and> segments_valid c')
   \<and> (\<exists>c'. insert_interpolated [ParameterCurveSegment 0 2 0 1 0] 1 = Inr c'
         \<and> curve_invariant c' \<and> segments_valid c')
   \<and> (\<exists>c'. append_segment [ParameterCurveSegment 0 2 0 1 0] 3 1 0 0 = Inr c'
         \<and> curve_invariant c' \<and> segments_valid c')
   \<and> curve_invariant [ParameterCurveSegment 0 2 0 1 0, ParameterCurveSegment 2 1 1 3 1]
   \<and> pop_segment [ParameterCurveSegment 0 2 0 1 0] = Inr (None, [ParameterCurveSegment 0 0 0 0 0])
   \<and> curve_invariant [ParameterCurveSegment 0 0 0 0 0]
   \<and> segments_valid [ParameterCurveSegment 0 0 0 0 0]
   \<and> (\<exists>c'. remove_segments_after [ParameterCurveSegment 0 2 0 1 0] 1 = Inr c'
         \<and> curve_invariant c' \<and> segments_valid c')
   \<and> remove_segments_after [ParameterCurveSegment 0 2 0 1 0] 1 = Inr [ParameterCurveSegment 0 1 0 (1/2) 0]"
proof -
  have inv: "curve_invariant [ParameterCurveSegment 0 2 0 1 0]"
    and val: "segments_valid [ParameterCurveSegment 0 2 0 1 0]"
    by (simp_all add: curve_invariant_def segments_valid_def ParameterCurveSegment_def)
  have L: "curve_length [ParameterCurveSegment 0 2 0 1 0] = 2"
    by (simp add: curve_length_def ParameterCurveSegment_def)
  note m = mutations_keep_invariant[OF inv val]
  have a: "\<exists>c'. curve_insert [ParameterCurveSegment 0 2 0 1 0] 1 5 0 0 = Inr c'
         \<and> curve_invariant c' \<and> segments_valid c'"
    using m[where t=1 and level=5 and curve_shape_in=0 and curve_shape_out=0, THEN conjunct1]
    by simp
  have b: "\<exists>c'. insert_interpolated [ParameterCurveSegment 0 2 0 1 0] 1 = Inr c'
         \<and> curve_invariant c' \<and> segments_valid c'"
    using m[where t=1, THEN conjunct2, THEN conjunct1] L by simp
  have c: "\<exists>c'. append_segment [ParameterCurveSegment 0 2 0 1 0] 3 1 0 0 = Inr c'
         \<and> curve_invariant c' \<and> segments_valid c'"
    using m[where dur=1 and level=3 and shape=0 and tolerance=0, THEN conjunct2, THEN conjunct2,
        THEN conjunct1]
    by simp
  have n: "curve_invariant [ParameterCurveSegment 0 2 0 1 0, ParameterCurveSegment 2 1 1 3 1]"
    using m[where dur="- 1" and level=3 and shape=1 and tolerance=0, THEN conjunct2, THEN conjunct2,
        THEN conjunct1]
    unfolding ramp_mutations(6) by simp
  have pm: "curve_invariant c' \<and> segments_valid c'"
    if "pop_segment [ParameterCurveSegment 0 2 0 1 0] = Inr (r, c')" for r c'
    using m[where t=0, THEN conjunct2, THEN conjunct2, THEN conjunct2, THEN conjunct1] that
    by blast
  have d: "curve_invariant [ParameterCurveSegment 0 0 0 0 0] \<and> segments_valid [ParameterCurveSegment 0 0 0 0 0]"
    using pm[OF ramp_mutations(4)] .
  have e: "\<exists>c'. remove_segments_after [ParameterCurveSegment 0 2 0 1 0] 1 = Inr c'
         \<and> curve_invariant c' \<and> segments_valid c'"
    using m[where t=1, THEN conjunct2, THEN conjunct2, THEN conjunct2, THEN conjunct2] .
  show ?thesis
    using a b c n d e ramp_mutations(4,5) by (simp only: simp_thms)
qed

text \<open>
  \<open>append_segment\<close> does not check its duration: with a negative one the invariant holds of
  the result, whose last segment ends before it starts.
\<close>

lemma append_negative_duration_segment:
  "append_segment [ParameterCurveSegment 0 2 0 1 0] 3 (- 1) 1 0
     = Inr [ParameterCurveSegment 0 2 0 1 0, ParameterCurveSegment 2 1 1 3 1]
   \<and> \<not> segments_valid [ParameterCurveSegment 0 2 0 1 0, ParameterCurveSegment 2 1 1 3 1]"
  by (simp add: segments_valid_def append_segment_def curve_length_def
      duration_def ParameterCurveSegment_def Let_def)


subsection \<open>C6: the bisection does not change the integral\<close>

text \<open>
  Claim C6: for every curve that satisfies the invariant with valid segments and for all
  bounds \<open>t1\<close>, \<open>t2\<close> (in particular \<open>t1 \<le> t2\<close>), \<open>integrate_interval\<close>, which starts
  its scan at the index the bisection loop found, returns the same value as the sum of the
  per-segment integrals over the full segment list; and it returns a value, no exception.
\<close>

theorem bisection_preserves_integral:
  assumes "curve_invariant c" and "segments_valid c"
  shows "integrate_interval c t1 t2 = integrate_interval_full_scan c t1 t2
       \<and> (\<exists>v. integrate_interval c t1 t2 = Inr v)"
  using integrate_interval_closed_form[OF assms, of t1 t2]
    integrate_interval_full_scan_closed_form[OF assms, of t1 t2]
  by simp

lemma staircase_bisect: "bisect_start_index staircase (13/2) 0 = Inr 4"
  by (simp add: staircase_def bisect_start_index.simps ParameterCurveSegment_def)

lemma staircase_full: "integrate_interval_full_scan staircase (13/2) (15/2) = Inr 7"
  by (simp add: staircase_def integrate_interval_full_scan.simps curve_length_def
      ParameterCurveSegment_def contains_def integrate_segment_def calculate_coefficients_def)

theorem bisection_preserves_integral_witness:
  "bisect_start_index staircase (13/2) 0 = Inr 4
   \<and> integrate_interval staircase (13/2) (15/2) = Inr 7"
proof -
  have "curve_invariant staircase" "segments_valid staircase"
    by (simp_all add: staircase_def curve_invariant_def segments_valid_def ParameterCurveSegment_def)
  then show ?thesis
    using bisection_preserves_integral[of staircase "13/2" "15/2"] staircase_bisect staircase_full
    by simp
qed


subsection \<open>C7: integration is additive over adjacent intervals\<close>

text \<open>
  Claim C7: for every curve that satisfies the invariant with valid segments and for all
  times \<open>t1\<close>, \<open>t2\<close>, \<open>t3\<close> (in particular \<open>t1 \<le> t2 \<le> t3\<close>, inside or outside
  \<open>[0, length]\<close>), the three integrals are returned and
  \<open>integrate_interval(t1, t3) = integrate_interval(t1, t2) + integrate_interval(t2, t3)\<close>.
\<close>

theorem integrate_interval_additive:
  assumes "curve_invariant c" and "segments_valid c"
  shows "\<exists>a b. integrate_interval c t1 t2 = Inr a \<and> integrate_interval c t2 t3 = Inr b
             \<and> integrate_interval c t1 t3 = Inr (a + b)"
  using integrate_interval_closed_form[OF assms, of t1 t2]
    integrate_interval_closed_form[OF assms, of t2 t3]
    integrate_interval_closed_form[OF assms, of t1 t3]
  by simp

lemma ramp_values:
  "integrate_interval [ParameterCurveSegment 0 2 0 1 0] (-1) 1 = Inr (1/4)"
  "integrate_interval [ParameterCurveSegment 0 2 0 1 0] 1 3 = Inr (7/4)"
  by (simp_all add: integrate_interval.simps bisect_start_index.simps curve_length_def
      curve_start_level_def curve_end_level_def
      ParameterCurveSegment_def contains_def integrate_segment_def calculate_coefficients_def)

theorem integrate_interval_additive_witness:
  "integrate_interval [ParameterCurveSegment 0 2 0 1 0] (-1) 1 = Inr (1/4)
   \<and> integrate_interval [ParameterCurveSegment 0 2 0 1 0] 1 3 = Inr (7/4)
   \<and> integrate_interval [ParameterCurveSegment 0 2 0 1 0] (-1) 3 = Inr 2"
proof -
  have inv: "curve_invariant [ParameterCurveSegment 0 2 0 1 0]"
    and val: "segments_valid [ParameterCurveSegment 0 2 0 1 0]"
    by (simp_all add: curve_invariant_def segments_valid_def ParameterCurveSegment_def)
  obtain a b where ab: "integrate_interval [ParameterCurveSegment 0 2 0 1 0] (-1) 1 = Inr a"
      "integrate_interval [ParameterCurveSegment 0 2 0 1 0] 1 3 = Inr b"
      "integrate_interval [ParameterCurveSegment 0 2 0 1 0] (-1) 3 = Inr (a + b)"
    using integrate_interval_additive[OF inv val, of "-1" 1 3] by blast
  have "a = 1/4" "b = 7/4" using ab(1,2) ramp_values by simp_all
  then show ?thesis using ab by simp
qed


subsection \<open>C8: the constant-proportional-rate shape\<close>

text \<open>
  With the shape \<open>ln (end_level / start_level)\<close> the interpolation formula collapses to
  \<open>start_level * (end_level / start_level)\<^sup>u\<close> at the normalised time \<open>u\<close>.
\<close>

lemma exp_shape_value:
  assumes "st < et" "st \<le> t" "t \<le> et" "sl \<noteq> 0" "0 < el / sl" "\<bar>ln (el / sl)\<bar> \<ge> 0.000001"
  shows "seg_value_at (ParameterCurveSegment st et sl el (ln (el / sl))) t True
         = Inr (sl * (el / sl) powr ((t - st) / (et - st)))"
proof -
  let ?r = "el / sl"
  let ?u = "(t - st) / (et - st)"
  have r1: "?r \<noteq> 1" using assms(6) by auto
  have er: "exp (ln ?r) = ?r" using assms(5) by simp
  have pw: "exp (ln ?r * ?u) = ?r powr ?u" using assms(5) by (auto simp: powr_def mult.commute)
  have k: "(el - sl) / (?r - 1) = sl"
  proof -
    have "el - sl = sl * (?r - 1)" using assms(4) by (simp add: field_simps)
    then show ?thesis using r1 by simp
  qed
  show ?thesis
  proof (cases "t = et")
    case True
    have "seg_value_at (ParameterCurveSegment st et sl el (ln ?r)) t True = Inr el"
      using True by (simp add: seg_value_at_def ParameterCurveSegment_def)
    moreover have "?u = 1" using True assms(1) by simp
    moreover have "?r powr 1 = ?r" using assms(5) by (simp only: powr_one)
    moreover have "sl * ?r = el" using assms(4) by simp
    ultimately show ?thesis by (simp only:)
  next
    case False
    note ne = this
    show ?thesis
    proof (cases "t = st")
      case True
      then show ?thesis using assms by (auto simp: seg_value_at_def ParameterCurveSegment_def)
    next
      case False
      have "seg_value_at (ParameterCurveSegment st et sl el (ln ?r)) t True
            = Inr (sl + (el - sl) / (exp (ln ?r) - 1) * (exp (ln ?r * ?u) - 1))"
        using assms ne False by (simp add: seg_value_at_def ParameterCurveSegment_def Let_def)
      also have "\<dots> = Inr (sl + sl * (?r powr ?u - 1))" using er pw k by simp
      also have "\<dots> = Inr (sl * ?r powr ?u)" by (simp add: algebra_simps)
      finally show ?thesis .
    qed
  qed
qed

lemma ln4_big: "\<bar>ln (4::real)\<bar> \<ge> 0.000001"
proof -
  have "exp (1::real) \<le> 4" using exp_le by simp
  then have "1 \<le> ln (4::real)" by (simp add: ln_ge_iff)
  then show ?thesis by simp
qed

text \<open>
  Claim C8: a single segment from level 1 to level 4 with shape \<open>ln 4\<close>, over any time
  range, has at every time of the range the value \<open>1 * (4 / 1)\<^sup>u\<close>, \<open>u\<close> the normalised
  time; and a step of \<open>h\<close> in time multiplies the value by \<open>4\<close> to the power
  \<open>h / duration\<close>, whatever the time the step starts from.
\<close>

theorem exp_shape_constant_ratio:
  assumes "st < et" "st \<le> t" "t \<le> et"
  shows "seg_value_at (ParameterCurveSegment st et 1 4 (ln 4)) t True
           = Inr (1 * (4 / 1) powr ((t - st) / (et - st)))
       \<and> (\<forall>h. 0 \<le> h \<and> t + h \<le> et \<longrightarrow>
            seg_value_at (ParameterCurveSegment st et 1 4 (ln 4)) (t + h) True
              = Inr (4 powr ((t - st) / (et - st)) * 4 powr (h / (et - st))))"
proof -
  have v: "seg_value_at (ParameterCurveSegment st et 1 4 (ln 4)) x True
           = Inr (4 powr ((x - st) / (et - st)))" if "st \<le> x" "x \<le> et" for x
    using exp_shape_value[of st et x 1 4] assms(1) that ln4_big by simp
  have "4 powr ((t + h - st) / (et - st)) = 4 powr ((t - st) / (et - st)) * (4::real) powr (h / (et - st))" for h
    by (simp add: powr_add[symmetric] add_divide_distrib[symmetric] algebra_simps)
  then show ?thesis using v assms by simp
qed

theorem exp_shape_constant_ratio_witness:
  "seg_value_at (ParameterCurveSegment 0 1 1 4 (ln 4)) (1/2) True = Inr 2
   \<and> seg_value_at (ParameterCurveSegment 0 1 1 4 (ln 4)) 1 True = Inr 4"
proof -
  have "(4::real) powr (1/2) = 2"
  proof -
    have "(4::real) powr (1/2) = sqrt 4" by (simp add: powr_half_sqrt)
    also have "\<dots> = 2" by simp
    finally show ?thesis .
  qed
  then show ?thesis
    using exp_shape_constant_ratio[of 0 1 "1/2"] exp_shape_constant_ratio[of 0 1 1] by simp
qed


subsection \<open>C9: levels bound values\<close>

text \<open>
  \<open>ParameterCurve.max_level\<close> over a range counts the levels at every segment end that
  lies in the range, the levels on both sides of a jump included. The curve below rises from
  0 to 5 on \<open>[0, 1]\<close>, jumps from 5 to 1 at time 1 and stays at 1 until time 2. Over the
  range \<open>(1, 2)\<close> its \<open>max_level\<close> is 5, a level that \<open>value_at\<close> takes nowhere in the range,
  where it is 1 throughout: the result is not the maximum of \<open>value_at\<close> over the range.
\<close>

theorem max_level_over_range_counterexample:
  "curve_invariant [ParameterCurveSegment 0 1 0 5 0, ParameterCurveSegment 1 1 5 1 0,
                    ParameterCurveSegment 1 2 1 1 0]
   \<and> segments_valid [ParameterCurveSegment 0 1 0 5 0, ParameterCurveSegment 1 1 5 1 0,
                    ParameterCurveSegment 1 2 1 1 0]
   \<and> curve_max_level [ParameterCurveSegment 0 1 0 5 0, ParameterCurveSegment 1 1 5 1 0,
                    ParameterCurveSegment 1 2 1 1 0] (Some (1, 2)) = Inr 5
   \<and> \<not> (\<exists>x. 1 \<le> x \<and> x \<le> 2
            \<and> curve_value_at [ParameterCurveSegment 0 1 0 5 0, ParameterCurveSegment 1 1 5 1 0,
                    ParameterCurveSegment 1 2 1 1 0] x = Inr 5)"
proof -
  let ?c = "[ParameterCurveSegment 0 1 0 5 0, ParameterCurveSegment 1 1 5 1 0,
             ParameterCurveSegment 1 2 1 1 0]"
  have inv: "curve_invariant ?c"
    by (simp add: curve_invariant_def ParameterCurveSegment_def)
  have val: "segments_valid ?c"
    by (simp add: segments_valid_def ParameterCurveSegment_def)
  have v: "curve_value_at ?c x = Inr 1" if "1 \<le> x" "x \<le> 2" for x
    using that
    by (auto simp: curve_value_at_def contains_def seg_value_at_def ParameterCurveSegment_def
        curve_end_level_def)
  have m: "curve_max_level ?c (Some (1, 2)) = Inr 5"
    using v[of 1] v[of 2]
    by (simp add: curve_max_level_def py_max_def points_in_range_def ParameterCurveSegment_def)
  have "curve_value_at ?c x \<noteq> Inr 5" if "1 \<le> x" "x \<le> 2" for x
    using v[OF that] by simp
  then show ?thesis using inv val m by blast
qed

text \<open>
  Claim C9, as amended: for every segment with \<open>start_time < end_time\<close> and every \<open>t\<close>,
  the (clipped) \<open>value_at(t)\<close> lies between the smaller and the larger of the two endpoint
  levels, so \<open>Segment.max_level\<close> bounds it and is the value at one of the two ends: it is
  the maximum of the segment. For a curve that satisfies the invariant with valid segments,
  \<open>Curve.max_level\<close> over a range \<open>t1 < t2\<close> returns an upper bound of \<open>value_at\<close> over
  \<open>[t1, t2]\<close>, and the result is the value at \<open>t1\<close>, the value at \<open>t2\<close>, or the start
  or end level of a segment whose start or end time lies in the range. When the curve has
  no jump (every segment has positive length and ends at the level at which the next one
  starts) the result is a value the curve takes at a time in \<open>[t1, t2]\<close>: the true maximum
  over the range.
\<close>

theorem levels_bound_values:
  "(start_time seg < end_time seg \<longrightarrow>
      (\<exists>v. seg_value_at seg t True = Inr v
           \<and> min (start_level seg) (end_level seg) \<le> v
           \<and> v \<le> max (start_level seg) (end_level seg)
           \<and> v \<le> seg_max_level seg)
      \<and> (\<exists>t'. (t' = start_time seg \<or> t' = end_time seg)
               \<and> seg_value_at seg t' True = Inr (seg_max_level seg)))
   \<and> (curve_invariant c \<and> segments_valid c \<and> t1 < t2 \<longrightarrow>
      (\<exists>m. curve_max_level c (Some (t1, t2)) = Inr m
           \<and> (\<forall>x. t1 \<le> x \<and> x \<le> t2 \<longrightarrow> (\<exists>v. curve_value_at c x = Inr v \<and> v \<le> m))
           \<and> (curve_value_at c t1 = Inr m \<or> curve_value_at c t2 = Inr m
                \<or> (\<exists>s\<in>set c. t1 \<le> start_time s \<and> start_time s \<le> t2 \<and> m = start_level s)
                \<or> (\<exists>s\<in>set c. t1 \<le> end_time s \<and> end_time s \<le> t2 \<and> m = end_level s))
           \<and> (level_continuous c \<and> (\<forall>s\<in>set c. start_time s < end_time s) \<longrightarrow>
                (\<exists>x. t1 \<le> x \<and> x \<le> t2 \<and> curve_value_at c x = Inr m))))"
proof (intro conjI impI)
  assume pos: "start_time seg < end_time seg"
  show "\<exists>v. seg_value_at seg t True = Inr v
           \<and> min (start_level seg) (end_level seg) \<le> v
           \<and> v \<le> max (start_level seg) (end_level seg)
           \<and> v \<le> seg_max_level seg"
    using seg_value_bounded[OF pos, of t] by (auto simp: seg_max_level_def)
  have s: "seg_value_at seg (start_time seg) True = Inr (start_level seg)"
    using pos by (simp add: seg_value_at_def)
  have e: "seg_value_at seg (end_time seg) True = Inr (end_level seg)"
    by (simp add: seg_value_at_def)
  show "\<exists>t'. (t' = start_time seg \<or> t' = end_time seg)
             \<and> seg_value_at seg t' True = Inr (seg_max_level seg)"
  proof (cases "start_level seg \<le> end_level seg")
    case True
    then show ?thesis using e by (auto simp: seg_max_level_def max_def)
  next
    case False
    then show ?thesis using s by (auto simp: seg_max_level_def max_def)
  qed
next
  assume h: "curve_invariant c \<and> segments_valid c \<and> t1 < t2"
  then obtain m where m: "curve_max_level c (Some (t1, t2)) = Inr m"
    and upper: "\<forall>x. t1 \<le> x \<and> x \<le> t2 \<longrightarrow> (\<exists>v. curve_value_at c x = Inr v \<and> v \<le> m)"
    using curve_max_level_range_upper[of c t1 t2] by blast
  have member: "curve_value_at c t1 = Inr m \<or> curve_value_at c t2 = Inr m
                \<or> (\<exists>s\<in>set c. t1 \<le> start_time s \<and> start_time s \<le> t2 \<and> m = start_level s)
                \<or> (\<exists>s\<in>set c. t1 \<le> end_time s \<and> end_time s \<le> t2 \<and> m = end_level s)"
    using curve_max_level_range_member[OF m] .
  have attained: "\<exists>x. t1 \<le> x \<and> x \<le> t2 \<and> curve_value_at c x = Inr m"
    if "level_continuous c \<and> (\<forall>s\<in>set c. start_time s < end_time s)"
    using curve_max_level_attained[of c t1 t2 m] h that m by blast
  show "\<exists>m. curve_max_level c (Some (t1, t2)) = Inr m
           \<and> (\<forall>x. t1 \<le> x \<and> x \<le> t2 \<longrightarrow> (\<exists>v. curve_value_at c x = Inr v \<and> v \<le> m))
           \<and> (curve_value_at c t1 = Inr m \<or> curve_value_at c t2 = Inr m
                \<or> (\<exists>s\<in>set c. t1 \<le> start_time s \<and> start_time s \<le> t2 \<and> m = start_level s)
                \<or> (\<exists>s\<in>set c. t1 \<le> end_time s \<and> end_time s \<le> t2 \<and> m = end_level s))
           \<and> (level_continuous c \<and> (\<forall>s\<in>set c. start_time s < end_time s) \<longrightarrow>
                (\<exists>x. t1 \<le> x \<and> x \<le> t2 \<and> curve_value_at c x = Inr m))"
    using m upper member attained by blast
qed

lemma peak_max_level:
  "curve_max_level [ParameterCurveSegment 0 1 0 5 0, ParameterCurveSegment 1 2 5 1 0] (Some (3/2, 2)) = Inr 3"
  "curve_max_level [ParameterCurveSegment 0 1 0 5 0, ParameterCurveSegment 1 2 5 1 0] (Some (1/2, 2)) = Inr 5"
  by (simp_all add: curve_max_level_def curve_value_at_def contains_def seg_value_at_def
      curve_end_level_def py_max_def points_in_range_def ParameterCurveSegment_def)

theorem levels_bound_values_witness:
  "seg_value_at (ParameterCurveSegment 0 1 1 4 0) (1/2) True = Inr (5/2)
   \<and> seg_max_level (ParameterCurveSegment 0 1 1 4 0) = 4
   \<and> curve_max_level [ParameterCurveSegment 0 1 0 5 0, ParameterCurveSegment 1 2 5 1 0] (Some (3/2, 2)) = Inr 3
   \<and> (\<exists>x. 3/2 \<le> x \<and> x \<le> 2
         \<and> curve_value_at [ParameterCurveSegment 0 1 0 5 0, ParameterCurveSegment 1 2 5 1 0] x = Inr 3)
   \<and> (\<exists>v. curve_value_at [ParameterCurveSegment 0 1 0 5 0, ParameterCurveSegment 1 2 5 1 0] (7/4) = Inr v
         \<and> v \<le> 3)"
proof -
  let ?c = "[ParameterCurveSegment 0 1 0 5 0, ParameterCurveSegment 1 2 5 1 0]"
  note w = levels_bound_values[of "ParameterCurveSegment 0 1 1 4 0" "1/2" ?c "3/2" 2]
  have inv: "curve_invariant ?c \<and> segments_valid ?c \<and> (3/2::real) < 2"
    by (simp add: curve_invariant_def segments_valid_def ParameterCurveSegment_def)
  have jump_free: "level_continuous ?c \<and> (\<forall>s\<in>set ?c. start_time s < end_time s)"
    by (simp add: ParameterCurveSegment_def)
  obtain m where m: "curve_max_level ?c (Some (3/2, 2)) = Inr m"
    and upper: "\<forall>x. 3/2 \<le> x \<and> x \<le> 2 \<longrightarrow> (\<exists>v. curve_value_at ?c x = Inr v \<and> v \<le> m)"
    and attained: "\<exists>x. 3/2 \<le> x \<and> x \<le> 2 \<and> curve_value_at ?c x = Inr m"
    using w[THEN conjunct2] inv jump_free by blast
  have m3: "m = 3" using m peak_max_level(1) by simp
  have "\<exists>v. curve_value_at ?c (7/4) = Inr v \<and> v \<le> m" using upper by simp
  moreover have "seg_value_at (ParameterCurveSegment 0 1 1 4 0) (1/2) True = Inr (5/2)"
    "seg_max_level (ParameterCurveSegment 0 1 1 4 0) = 4"
    by (simp_all add: seg_value_at_def seg_max_level_def ParameterCurveSegment_def)
  ultimately show ?thesis using attained m3 peak_max_level(1) by simp
qed


subsection \<open>C10: the inverse integral search divides by the level at its starting point\<close>

text \<open>
  Claim C10: when the desired area is at least \<open>max_error\<close> and the curve's value at
  \<open>t1\<close> is 0, \<open>get_upper_integration_bound\<close> raises \<open>ZeroDivisionError\<close>; when the
  desired area is below \<open>max_error\<close> it returns \<open>t1\<close>, whatever the curve (the level is
  not looked at).
\<close>

theorem upper_bound_zero_level:
  "(desired_area \<ge> max_error \<longrightarrow> curve_value_at c t1 = Inr 0 \<longrightarrow>
      get_upper_integration_bound c t1 desired_area max_error = Some (Inl ZeroDivisionError))
   \<and> (desired_area < max_error \<longrightarrow>
      get_upper_integration_bound c t1 desired_area max_error = Some (Inr t1))"
  by (subst get_upper_integration_bound.simps, subst get_upper_integration_bound.simps) simp

theorem upper_bound_zero_level_witness:
  "get_upper_integration_bound [ParameterCurveSegment 0 1 0 0 0] 0 1 (1/1000) = Some (Inl ZeroDivisionError)
   \<and> get_upper_integration_bound [ParameterCurveSegment 0 1 0 0 0] 0 0 (1/1000) = Some (Inr 0)"
  using upper_bound_zero_level[of "1/1000" 1 "[ParameterCurveSegment 0 1 0 0 0]" 0]
        upper_bound_zero_level[of "1/1000" 0 "[ParameterCurveSegment 0 1 0 0 0]" 0]
  by (simp add: curve_value_at_def contains_def seg_value_at_def ParameterCurveSegment_def)

end
